theory Spec2Isabelle
  imports Complex_Main
begin

section \<open>Errors\<close>

text \<open>
  Every exception the source can raise is a value. \<open>AssertionError\<close> is what the
  \<^verbatim>\<open>assert\<close> statements of \<^verbatim>\<open>Matricize.__init__\<close> and \<^verbatim>\<open>Tensorize.__init__\<close> raise (the
  specification calls it ConfigurationError); \<open>ValueError\<close> is the failed tuple unpacking of
  \<^verbatim>\<open>left, right = equation.split("->")\<close>; \<open>ZeroDivisionError\<close> and \<open>TypeError\<close> are raised by
  integer arithmetic and \<^verbatim>\<open>reduce\<close>; \<open>IndexError\<close> and \<open>RuntimeError\<close> by indexing and by
  the tensor library. \<open>MalformedEquationError\<close> and \<open>ShapeMismatchError\<close> are the two
  failures of the pattern library as the specification names them.
\<close>

datatype error =
    MalformedEquationError
  | ShapeMismatchError
  | AssertionError
  | ValueError
  | ZeroDivisionError
  | TypeError
  | IndexError
  | RuntimeError

section \<open>Strings\<close>

text \<open>Python's \<^verbatim>\<open>str.isspace\<close> on ASCII characters.\<close>

definition is_space :: "char \<Rightarrow> bool" where
  "is_space c = (c \<in> set [CHR '' '', CHR 0x09, CHR 0x0A, CHR 0x0B, CHR 0x0C, CHR 0x0D,
                             CHR 0x1C, CHR 0x1D, CHR 0x1E, CHR 0x1F])"

text \<open>The regular-expression class \<^verbatim>\<open>\w\<close> on ASCII characters.\<close>

definition is_word :: "char \<Rightarrow> bool" where
  "is_word c = (c \<in> set ''abcdefghijklmnopqrstuvwxyzABCDEFGHIJKLMNOPQRSTUVWXYZ0123456789_'')"

text \<open>
  \<^verbatim>\<open>s.split()\<close> without a separator: the maximal runs of characters that are not
  separators, empty runs dropped. The separator test is a parameter.
\<close>

function split_on :: "(char \<Rightarrow> bool) \<Rightarrow> string \<Rightarrow> string list" where
  "split_on P [] = []"
| "split_on P (c # cs) =
     (if P c then split_on P cs
      else (c # takeWhile (\<lambda>x. \<not> P x) cs) # split_on P (dropWhile (\<lambda>x. \<not> P x) cs))"
  by pat_completeness auto
termination
  by (relation "measure (\<lambda>(P, s). length s)") (auto simp: less_Suc_eq_le length_dropWhile_le)

definition split_ws :: "string \<Rightarrow> string list" where
  "split_ws = split_on is_space"

text \<open>\<^verbatim>\<open>s.lstrip()\<close>, \<^verbatim>\<open>s.rstrip()\<close> and the source's \<^verbatim>\<open>s.rstrip().lstrip()\<close>.\<close>

definition lstrip :: "string \<Rightarrow> string" where
  "lstrip s = dropWhile is_space s"

definition rstrip :: "string \<Rightarrow> string" where
  "rstrip s = rev (dropWhile is_space (rev s))"

definition strip :: "string \<Rightarrow> string" where
  "strip s = lstrip (rstrip s)"

text \<open>
  \<^verbatim>\<open>s.split("->")\<close>: the pieces between the non-overlapping occurrences of the arrow,
  scanned from the left; a string without an arrow is one piece.
\<close>

fun split_arrow :: "string \<Rightarrow> string list" where
  "split_arrow [] = [[]]"
| "split_arrow [c] = [[c]]"
| "split_arrow (c # d # cs) =
     (if c = CHR ''-'' \<and> d = CHR ''>'' then [] # split_arrow cs
      else (case split_arrow (d # cs) of
              [] \<Rightarrow> [[c]]
            | p # ps \<Rightarrow> (c # p) # ps))"

section \<open>The group scanner of \<^verbatim>\<open>infer_dims\<close> and \<^verbatim>\<open>compute_size\<close>\<close>

text \<open>
  \<^verbatim>\<open>re.findall(r"\(([^)]+)\)|(\w+)", pattern)\<close>: the scan tries, at each position, an
  opening parenthesis followed by at least one character other than a closing parenthesis
  and then a closing parenthesis (first capture: the characters between), otherwise a
  maximal run of word characters (second capture); where neither matches it moves one
  character on. Each match is the pair of the two captures, the unused one empty.
\<close>

function re_findall :: "string \<Rightarrow> (string \<times> string) list" where
  "re_findall [] = []"
| "re_findall (c # cs) =
     (if c = CHR ''(''
      then (if takeWhile (\<lambda>x. x \<noteq> CHR '')'') cs \<noteq> [] \<and> dropWhile (\<lambda>x. x \<noteq> CHR '')'') cs \<noteq> []
            then (takeWhile (\<lambda>x. x \<noteq> CHR '')'') cs, [])
                   # re_findall (tl (dropWhile (\<lambda>x. x \<noteq> CHR '')'') cs))
            else re_findall cs)
      else if is_word c
      then ([], c # takeWhile is_word cs) # re_findall (dropWhile is_word cs)
      else re_findall cs)"
  by pat_completeness auto
termination
proof (relation "measure length", goal_cases)
  case 1
  show ?case by simp
next
  case (2 c cs)
  have "length (dropWhile (\<lambda>x. x \<noteq> CHR '')'') cs) \<le> length cs"
    by (rule length_dropWhile_le)
  then show ?case by simp
next
  case (3 c cs)
  show ?case by simp
next
  case (4 c cs)
  have "length (dropWhile is_word cs) \<le> length cs"
    by (rule length_dropWhile_le)
  then show ?case by simp
next
  case (5 c cs)
  show ?case by simp
qed

text \<open>\<^verbatim>\<open>dims = group[0].split() if group[0] else [group[1]]\<close>\<close>

definition group_dims :: "string \<times> string \<Rightarrow> string list" where
  "group_dims grp = (if fst grp \<noteq> [] then split_ws (fst grp) else [snd grp])"

section \<open>\<^verbatim>\<open>Reshape.infer_dims\<close>\<close>

type_synonym dim_map = "string \<rightharpoonup> int"

text \<open>
  The members of a group that have a length in \<open>dim_lengths\<close>, in order and with
  repetitions, as the source's comprehension \<^verbatim>\<open>[d for d in dims if d in dim_lengths]\<close>.
\<close>

definition known_dims :: "dim_map \<Rightarrow> string list \<Rightarrow> string list" where
  "known_dims dim_lengths dims = filter (\<lambda>d. dim_lengths d \<noteq> None) dims"

text \<open>
  \<^verbatim>\<open>reduce(lambda x, y: x * y, (dim_lengths[d] for d in dims if d in dim_lengths), 1)\<close>
\<close>

definition known_product :: "dim_map \<Rightarrow> string list \<Rightarrow> int" where
  "known_product dim_lengths dims =
     foldl (\<lambda>x y. x * y) 1 (map (\<lambda>d. the (dim_lengths d)) (known_dims dim_lengths dims))"

text \<open>
  One iteration of the loop of \<^verbatim>\<open>infer_dims\<close> on a pair of \<^verbatim>\<open>zip(groups, size)\<close>.
  \<^verbatim>\<open>len(dims) - 1\<close> is an integer and may be \<open>-1\<close>. Python's \<^verbatim>\<open>//\<close> is floor division,
  as \<open>div\<close> on \<open>int\<close> is, and raises where the divisor is zero.
\<close>

definition infer_step :: "dim_map \<Rightarrow> (string \<times> string) \<times> int option \<Rightarrow> dim_map \<Rightarrow> error + dim_map" where
  "infer_step dim_lengths gs inferred_dims =
     (let dims = group_dims (fst gs) in
      case snd gs of
        None \<Rightarrow>
          Inr (fold (\<lambda>d m. case dim_lengths d of Some v \<Rightarrow> m(d \<mapsto> v) | None \<Rightarrow> m) dims inferred_dims)
      | Some s \<Rightarrow>
          if int (length (known_dims dim_lengths dims)) < int (length dims) - 1
          then Inr (fold (\<lambda>d m. case dim_lengths d of Some v \<Rightarrow> m(d \<mapsto> v) | None \<Rightarrow> m) dims inferred_dims)
          else if known_product dim_lengths dims = 0 then Inl ZeroDivisionError
          else (let unknown_dim = s div known_product dim_lengths dims in
                Inr (fold (\<lambda>d m. m(d \<mapsto> (case dim_lengths d of Some v \<Rightarrow> v | None \<Rightarrow> unknown_dim)))
                       dims inferred_dims)))"

fun infer_loop :: "dim_map \<Rightarrow> ((string \<times> string) \<times> int option) list \<Rightarrow> dim_map \<Rightarrow> error + dim_map" where
  "infer_loop dim_lengths [] inferred_dims = Inr inferred_dims"
| "infer_loop dim_lengths (gs # rest) inferred_dims =
     (case infer_step dim_lengths gs inferred_dims of
        Inl e \<Rightarrow> Inl e
      | Inr m \<Rightarrow> infer_loop dim_lengths rest m)"

definition infer_dims :: "string \<Rightarrow> int option list \<Rightarrow> dim_map \<Rightarrow> error + dim_map" where
  "infer_dims pattern size_in dim_lengths =
     infer_loop dim_lengths (zip (re_findall pattern) size_in) Map.empty"

section \<open>\<^verbatim>\<open>Reshape.compute_size\<close>\<close>

text \<open>
  \<^verbatim>\<open>reduce\<close> without an initial value raises TypeError on an empty sequence, which a
  group of blanks only gives.
\<close>

definition group_size :: "dim_map \<Rightarrow> string \<times> string \<Rightarrow> error + int option" where
  "group_size dim_lengths grp =
     (let dims = group_dims grp in
      if \<exists>d \<in> set dims. dim_lengths d = None then Inr None
      else (case map (\<lambda>d. the (dim_lengths d)) dims of
              [] \<Rightarrow> Inl TypeError
            | v # vs \<Rightarrow> Inr (Some (foldl (\<lambda>x y. x * y) v vs))))"

fun compute_loop :: "dim_map \<Rightarrow> (string \<times> string) list \<Rightarrow> error + int option list" where
  "compute_loop dim_lengths [] = Inr []"
| "compute_loop dim_lengths (grp # rest) =
     (case group_size dim_lengths grp of
        Inl e \<Rightarrow> Inl e
      | Inr sz \<Rightarrow> (case compute_loop dim_lengths rest of
                    Inl e \<Rightarrow> Inl e
                  | Inr szs \<Rightarrow> Inr (sz # szs)))"

definition compute_size :: "string \<Rightarrow> dim_map \<Rightarrow> error + int option list" where
  "compute_size pattern dim_lengths = compute_loop dim_lengths (re_findall pattern)"

section \<open>Tensors\<close>

text \<open>
  A dense tensor is its shape and its elements in row-major order (the last axis varies
  fastest), as a contiguous buffer holds them. A well-formed tensor has as many elements as
  the product of its shape; the library only ever produces such tensors.
\<close>

record 'a tensor =
  shape :: "nat list"
  data :: "'a list"

definition wf_tensor :: "'a tensor \<Rightarrow> bool" where
  "wf_tensor x = (length (data x) = prod_list (shape x))"

text \<open>The flat position of a multi-index, and the multi-index of a flat position.\<close>

fun ravel :: "nat list \<Rightarrow> nat list \<Rightarrow> nat" where
  "ravel (n # ns) (i # is) = i * prod_list ns + ravel ns is"
| "ravel _ _ = 0"

fun unravel :: "nat list \<Rightarrow> nat \<Rightarrow> nat list" where
  "unravel [] k = []"
| "unravel (n # ns) k = (k div prod_list ns) # unravel ns (k mod prod_list ns)"

definition valid_index :: "nat list \<Rightarrow> nat list \<Rightarrow> bool" where
  "valid_index ns is = list_all2 (\<lambda>i n. i < n) is ns"

section \<open>The pattern layer\<close>

text \<open>
  Modelled from the spec: the layer \<^verbatim>\<open>Rearrange\<close> that \<^verbatim>\<open>Reshape.__init__\<close> builds from the
  equation is imported from the einops library and is not in the repository. The model
  follows sections 4.1, 4.2 and 6 of the specification: each side of an equation is a
  space-separated list of tokens, a token being a bare identifier or a parenthesised
  space-separated list of identifiers (a non-empty group); parsing fails with
  MalformedEquationError on unbalanced parentheses, on a name that occurs twice on one
  side, and where the two sides do not have the same names. An identifier is a non-empty
  run of word characters that does not start with a digit.
\<close>

definition is_identifier :: "string \<Rightarrow> bool" where
  "is_identifier w = (w \<noteq> [] \<and> list_all is_word w \<and> hd w \<notin> set ''0123456789'')"

function parse_side :: "string \<Rightarrow> error + string list list" where
  "parse_side [] = Inr []"
| "parse_side (c # cs) =
     (if c = CHR '' '' then parse_side cs
      else if c = CHR ''(''
      then (if dropWhile (\<lambda>x. x \<noteq> CHR '')'') cs = [] then Inl MalformedEquationError
            else if split_on (\<lambda>x. x = CHR '' '') (takeWhile (\<lambda>x. x \<noteq> CHR '')'') cs) = []
                    \<or> \<not> list_all is_identifier
                          (split_on (\<lambda>x. x = CHR '' '') (takeWhile (\<lambda>x. x \<noteq> CHR '')'') cs))
            then Inl MalformedEquationError
            else (case parse_side (tl (dropWhile (\<lambda>x. x \<noteq> CHR '')'') cs)) of
                    Inl e \<Rightarrow> Inl e
                  | Inr gs \<Rightarrow>
                      Inr (split_on (\<lambda>x. x = CHR '' '') (takeWhile (\<lambda>x. x \<noteq> CHR '')'') cs) # gs)))
      else if is_word c
      then (if \<not> is_identifier (c # takeWhile is_word cs) then Inl MalformedEquationError
            else (case parse_side (dropWhile is_word cs) of
                    Inl e \<Rightarrow> Inl e
                  | Inr gs \<Rightarrow> Inr ([c # takeWhile is_word cs] # gs)))
      else Inl MalformedEquationError)"
  by pat_completeness auto
termination
proof (relation "measure length", goal_cases)
  case 1
  show ?case by simp
next
  case (2 c cs)
  show ?case by simp
next
  case (3 c cs)
  have "length (dropWhile (\<lambda>x. x \<noteq> CHR '')'') cs) \<le> length cs"
    by (rule length_dropWhile_le)
  then show ?case by simp
next
  case (4 c cs)
  have "length (dropWhile is_word cs) \<le> length cs"
    by (rule length_dropWhile_le)
  then show ?case by simp
qed

text \<open>
  The constructed layer: the groups of the two sides and the supplied axis lengths.
\<close>

record Rearrange =
  left_groups :: "string list list"
  right_groups :: "string list list"
  axes_lengths :: dim_map

text \<open>
  Modelled from the spec: construction of the layer (einops, not in the repository). The
  pattern is split at the arrow and both sides are parsed. Besides the three failures of
  the specification, the library refuses at construction a pattern in which an input group
  has more than one member without a supplied length, because it cannot split that axis;
  the specification names no error for that and the model reports ShapeMismatchError.
\<close>

definition Rearrange_init :: "string \<Rightarrow> dim_map \<Rightarrow> error + Rearrange" where
  "Rearrange_init pattern lengths =
     (case split_arrow pattern of
        [l, r] \<Rightarrow>
          (case parse_side l of
             Inl e \<Rightarrow> Inl e
           | Inr lg \<Rightarrow>
               (case parse_side r of
                  Inl e \<Rightarrow> Inl e
                | Inr rg \<Rightarrow>
                    if \<not> distinct (concat lg) \<or> \<not> distinct (concat rg)
                       \<or> set (concat lg) \<noteq> set (concat rg)
                    then Inl MalformedEquationError
                    else if list_ex (\<lambda>g. 1 < length (filter (\<lambda>a. lengths a = None) g)) lg
                    then Inl ShapeMismatchError
                    else Inr \<lparr>left_groups = lg, right_groups = rg, axes_lengths = lengths\<rparr>))
      | _ \<Rightarrow> Inl MalformedEquationError)"

text \<open>
  Modelled from the spec: the lengths of the member axes of one input group, from the
  supplied lengths and the extent \<open>n\<close> of the tensor axis (section 4.2: each input axis is
  split into its member axes according to the known extents; an extent that does not fit
  is a ShapeMismatchError). A negative supplied length fits no tensor.
\<close>

definition resolve_group :: "dim_map \<Rightarrow> string list \<Rightarrow> nat \<Rightarrow> error + (string \<times> nat) list" where
  "resolve_group lengths g n =
     (if list_ex (\<lambda>a. case lengths a of Some v \<Rightarrow> v < 0 | None \<Rightarrow> False) g
      then Inl ShapeMismatchError
      else (let kp = prod_list (map (\<lambda>a. nat (the (lengths a)))
                                  (filter (\<lambda>a. lengths a \<noteq> None) g)) in
            case filter (\<lambda>a. lengths a = None) g of
              [] \<Rightarrow> if n = kp
                    then Inr (map (\<lambda>a. (a, nat (the (lengths a)))) g)
                    else Inl ShapeMismatchError
            | [u] \<Rightarrow> if kp = 0 \<or> n mod kp \<noteq> 0 then Inl ShapeMismatchError
                     else Inr (map (\<lambda>a. (a, case lengths a of Some v \<Rightarrow> nat v
                                                | None \<Rightarrow> n div kp)) g)
            | _ \<Rightarrow> Inl ShapeMismatchError))"

fun resolve_groups :: "dim_map \<Rightarrow> string list list \<Rightarrow> nat list \<Rightarrow> error + (string \<times> nat) list" where
  "resolve_groups lengths [] [] = Inr []"
| "resolve_groups lengths (g # gs) (n # ns) =
     (case resolve_group lengths g n of
        Inl e \<Rightarrow> Inl e
      | Inr al \<Rightarrow> (case resolve_groups lengths gs ns of
                    Inl e \<Rightarrow> Inl e
                  | Inr als \<Rightarrow> Inr (al @ als)))"
| "resolve_groups lengths _ _ = Inl ShapeMismatchError"

text \<open>
  The length of a named axis in a resolved list, and the element move of the layer: the
  output element at flat position \<open>k\<close> has, in the order of the output axes, the
  multi-index \<open>unravel\<close> gives; each input axis takes the index of the output axis of the
  same name.
\<close>

definition axis_len :: "(string \<times> nat) list \<Rightarrow> string \<Rightarrow> nat" where
  "axis_len al a = (case map_of al a of Some n \<Rightarrow> n | None \<Rightarrow> 0)"

definition source_index :: "string list \<Rightarrow> nat list \<Rightarrow> string list \<Rightarrow> nat list \<Rightarrow> nat \<Rightarrow> nat" where
  "source_index ins in_lens outs out_lens k =
     ravel in_lens (map (\<lambda>a. case map_of (zip outs (unravel out_lens k)) a of
                               Some i \<Rightarrow> i | None \<Rightarrow> 0) ins)"

text \<open>
  Modelled from the spec: applying the layer (section 4.2). The rank of the tensor must be
  the number of input groups and every input axis must split into its members; the output
  has one axis per output group, of the product of the lengths of its members.
\<close>

definition Rearrange_apply :: "Rearrange \<Rightarrow> 'a tensor \<Rightarrow> error + 'a tensor" where
  "Rearrange_apply r x =
     (case resolve_groups (axes_lengths r) (left_groups r) (shape x) of
        Inl e \<Rightarrow> Inl e
      | Inr al \<Rightarrow>
          (let ins = concat (left_groups r);
               outs = concat (right_groups r);
               in_lens = map (axis_len al) ins;
               out_lens = map (axis_len al) outs
           in Inr \<lparr>shape = map (\<lambda>g. prod_list (map (axis_len al) g)) (right_groups r),
                   data = map (\<lambda>k. data x ! source_index ins in_lens outs out_lens k)
                              [0..<prod_list out_lens]\<rparr>))"

section \<open>Cyclic shifts\<close>

text \<open>
  \<^verbatim>\<open>torch.roll\<close> along one axis \<open>d\<close> by \<open>s\<close>: the element at index \<open>i\<close> of that axis comes
  from index \<open>(i - s) mod n\<close>, all other indices unchanged.
\<close>

definition roll_dim :: "'a tensor \<Rightarrow> int \<Rightarrow> nat \<Rightarrow> 'a tensor" where
  "roll_dim x s d =
     \<lparr>shape = shape x,
      data = map (\<lambda>k. data x ! ravel (shape x)
                          ((unravel (shape x) k)
                             [d := nat ((int (unravel (shape x) k ! d) - s) mod int (shape x ! d))]))
                 [0..<prod_list (shape x)]\<rparr>"

text \<open>
  Several axes are rolled one after the other, first pair first. An axis number may be
  negative and counts from the end; outside \<open>[-rank, rank)\<close> it is an IndexError.
\<close>

fun roll_dims :: "'a tensor \<Rightarrow> int list \<Rightarrow> int list \<Rightarrow> error + 'a tensor" where
  "roll_dims x [] [] = Inr x"
| "roll_dims x (s # ss) (d # ds) =
     (if d < - int (length (shape x)) \<or> int (length (shape x)) \<le> d then Inl IndexError
      else roll_dims (roll_dim x s (nat (d mod int (length (shape x))))) ss ds)"
| "roll_dims x _ _ = Inl RuntimeError"

text \<open>Without axes the tensor is rolled as a flat sequence, by a single shift.\<close>

definition roll_flat :: "'a tensor \<Rightarrow> int \<Rightarrow> 'a tensor" where
  "roll_flat x s =
     \<lparr>shape = shape x,
      data = map (\<lambda>k. data x ! nat ((int k - s) mod int (prod_list (shape x))))
                 [0..<prod_list (shape x)]\<rparr>"

definition torch_roll :: "'a tensor \<Rightarrow> int list \<Rightarrow> int list option \<Rightarrow> error + 'a tensor" where
  "torch_roll x shifts_in dims_in =
     (if shifts_in = [] then Inl RuntimeError
      else if (dims_in = None \<or> dims_in = Some []) \<and> length shifts_in = 1
      then Inr (roll_flat x (hd shifts_in))
      else (case dims_in of
              None \<Rightarrow> Inl RuntimeError
            | Some ds \<Rightarrow> if length shifts_in \<noteq> length ds then Inl RuntimeError
                         else roll_dims x shifts_in ds))"

section \<open>\<^verbatim>\<open>Reshape\<close>\<close>

text \<open>
  The object \<^verbatim>\<open>Reshape.__init__\<close> builds. \<open>rearrange\<close> and \<open>rearrange_inv\<close> are \<open>None\<close>
  for \<^verbatim>\<open>nn.Identity()\<close>. The attributes \<open>shifts\<close>, \<open>shifts_inv\<close> and \<open>dims\<close> exist only when
  shifts were given: \<^verbatim>\<open>hasattr(self, "shifts")\<close> is \<open>shifts \<noteq> None\<close>.
\<close>

record Reshape =
  input_size :: "int option list"
  rearrange :: "Rearrange option"
  rearrange_inv :: "Rearrange option"
  dim_lengths :: dim_map
  output_size :: "int option list"
  shifts :: "int list option"
  shifts_inv :: "int list option"
  dims :: "int list option"

definition Reshape_init ::
  "int option list \<Rightarrow> string option \<Rightarrow> int list option \<Rightarrow> int list option \<Rightarrow> dim_map
   \<Rightarrow> error + Reshape" where
  "Reshape_init input_size_in equation shifts_in dims_in kwargs =
     (case equation of
        None \<Rightarrow>
          Inr \<lparr>input_size = input_size_in, rearrange = None, rearrange_inv = None,
               dim_lengths = Map.empty, output_size = input_size_in,
               shifts = shifts_in, shifts_inv = map_option (map uminus) shifts_in,
               dims = (if shifts_in = None then None else dims_in)\<rparr>
      | Some eq \<Rightarrow>
          (case split_arrow eq of
             [l, r] \<Rightarrow>
               (case Rearrange_init eq kwargs of
                  Inl e \<Rightarrow> Inl e
                | Inr re \<Rightarrow>
                    (case infer_dims (strip l) input_size_in kwargs of
                       Inl e \<Rightarrow> Inl e
                     | Inr dl \<Rightarrow>
                         (case compute_size (strip r) dl of
                            Inl e \<Rightarrow> Inl e
                          | Inr osz \<Rightarrow>
                              (case Rearrange_init (strip r @ '' -> '' @ strip l) dl of
                                 Inl e \<Rightarrow> Inl e
                               | Inr rinv \<Rightarrow>
                                   Inr \<lparr>input_size = input_size_in, rearrange = Some re,
                                        rearrange_inv = Some rinv, dim_lengths = dl,
                                        output_size = osz, shifts = shifts_in,
                                        shifts_inv = map_option (map uminus) shifts_in,
                                        dims = (if shifts_in = None then None else dims_in)\<rparr>))))
           | _ \<Rightarrow> Inl ValueError))"

definition apply_layer :: "Rearrange option \<Rightarrow> 'a tensor \<Rightarrow> error + 'a tensor" where
  "apply_layer layer x = (case layer of None \<Rightarrow> Inr x | Some r \<Rightarrow> Rearrange_apply r x)"

definition forward :: "Reshape \<Rightarrow> 'a tensor \<Rightarrow> error + 'a tensor" where
  "forward self x =
     (case shifts self of
        None \<Rightarrow> apply_layer (rearrange self) x
      | Some ss \<Rightarrow> (case torch_roll x ss (dims self) of
                     Inl e \<Rightarrow> Inl e
                   | Inr x' \<Rightarrow> apply_layer (rearrange self) x'))"


section \<open>\<^verbatim>\<open>Matricize\<close> and \<^verbatim>\<open>Tensorize\<close>\<close>

text \<open>
  A grid or patch size is an integer or a sequence whose entries may be \<open>None\<close> (the
  windowed classes pass such sequences on); shifts are an integer or a sequence of integers.
  \<^verbatim>\<open>_ntuple(n)\<close> repeats a value that is not a sequence \<open>n\<close> times and returns a sequence as
  it is. \<^verbatim>\<open>len(input_size) - 2\<close> below zero gives empty ranges and tuples, as zero does.
\<close>

datatype size_arg = Scalar int | Seq "int option list"

datatype shift_arg = ShiftScalar int | ShiftSeq "int list"

definition to_ntuple :: "nat \<Rightarrow> size_arg option \<Rightarrow> int option list" where
  "to_ntuple n a = (case a of None \<Rightarrow> replicate n None
                    | Some (Scalar v) \<Rightarrow> replicate n (Some v)
                    | Some (Seq xs) \<Rightarrow> xs)"

definition to_ntuple_shift :: "nat \<Rightarrow> shift_arg \<Rightarrow> int list" where
  "to_ntuple_shift n a = (case a of ShiftScalar v \<Rightarrow> replicate n v | ShiftSeq xs \<Rightarrow> xs)"

text \<open>The decimal digits of a natural number, as \<^verbatim>\<open>f"{i}"\<close> prints them.\<close>

function str_nat :: "nat \<Rightarrow> string" where
  "str_nat n = (if n < 10 then [''0123456789'' ! n]
                else str_nat (n div 10) @ [''0123456789'' ! (n mod 10)])"
  by pat_completeness auto
termination
  by (relation "measure id") auto

declare str_nat.simps [simp del]

fun join_sp :: "string list \<Rightarrow> string" where
  "join_sp [] = []"
| "join_sp [x] = x"
| "join_sp (x # y # ys) = x @ '' '' @ join_sp (y # ys)"

text \<open>
  The left side that both constructors build:
  \<^verbatim>\<open>f'b (h d) {" ".join([f"(g{i} p{i})" for i in range(spatial_dim)])}'\<close>
\<close>

definition left_pattern :: "nat \<Rightarrow> string" where
  "left_pattern spatial_dim =
     ''b (h d) '' @ join_sp (map (\<lambda>i. ''(g'' @ str_nat i @ '' p'' @ str_nat i @ '')'')
                                 [0..<spatial_dim])"

text \<open>The right side of \<^verbatim>\<open>Matricize\<close>, built by three appending assignments.\<close>

definition matricize_right :: "nat \<Rightarrow> string" where
  "matricize_right spatial_dim =
     ''(b h) ''
     @ (''('' @ join_sp (map (\<lambda>i. ''g'' @ str_nat i) [0..<spatial_dim]) @ '') '')
     @ (''d ('' @ join_sp (map (\<lambda>i. ''p'' @ str_nat i) [0..<spatial_dim]) @ '')'')"

text \<open>
  The right side of \<^verbatim>\<open>Tensorize\<close>. The second statement of the source is an assignment
  (\<^verbatim>\<open>right = f'(...) '\<close>), not \<^verbatim>\<open>right += ...\<close>, so the first value \<^verbatim>\<open>"(b h) "\<close> is
  overwritten and is not part of the result.
\<close>

definition tensorize_right :: "nat \<Rightarrow> string" where
  "tensorize_right spatial_dim =
     (''('' @ join_sp (map (\<lambda>i. ''g'' @ str_nat i) [0..<spatial_dim]) @ '') '')
     @ (''d '' @ join_sp (map (\<lambda>i. ''p'' @ str_nat i) [0..<spatial_dim]))"

text \<open>
  The dictionary \<^verbatim>\<open>dims_lengths\<close> of both constructors (their lines are the same):
  every supplied value enters as \<^verbatim>\<open>max(value, 1)\<close>.
\<close>

definition put_sizes :: "string \<Rightarrow> int option list \<Rightarrow> dim_map \<Rightarrow> dim_map" where
  "put_sizes prefix vs m =
     fold (\<lambda>jv acc. case snd jv of None \<Rightarrow> acc
                     | Some v \<Rightarrow> acc(prefix @ str_nat (fst jv) \<mapsto> max v 1))
          (enumerate 0 vs) m"

definition dims_lengths ::
  "nat \<Rightarrow> int option \<Rightarrow> int option \<Rightarrow> size_arg option \<Rightarrow> size_arg option \<Rightarrow> dim_map" where
  "dims_lengths spatial_dim num_heads head_dim grid_size patch_size =
     put_sizes ''p'' (to_ntuple spatial_dim patch_size)
       (put_sizes ''g'' (to_ntuple spatial_dim grid_size)
          ((case head_dim of None \<Rightarrow> (\<lambda>m. m) | Some v \<Rightarrow> (\<lambda>m. m(''d'' \<mapsto> max v 1)))
             ((case num_heads of None \<Rightarrow> (\<lambda>m. m) | Some v \<Rightarrow> (\<lambda>m. m(''h'' \<mapsto> max v 1)))
                Map.empty)))"

text \<open>
  Both constructors, without further keyword arguments. The two \<^verbatim>\<open>assert\<close> statements
  come first; with shifts the rolled axes are the spatial ones, \<open>2, 3, \<dots>\<close>.
\<close>

definition Matricize_init ::
  "int option list \<Rightarrow> int option \<Rightarrow> int option \<Rightarrow> size_arg option \<Rightarrow> size_arg option
   \<Rightarrow> shift_arg option \<Rightarrow> error + Reshape" where
  "Matricize_init input_size_in num_heads head_dim grid_size patch_size shifts_in =
     (if num_heads = None \<and> head_dim = None then Inl AssertionError
      else if grid_size = None \<and> patch_size = None then Inl AssertionError
      else (let spatial_dim = length input_size_in - 2 in
            Reshape_init input_size_in
              (Some (left_pattern spatial_dim @ '' -> '' @ matricize_right spatial_dim))
              (map_option (to_ntuple_shift spatial_dim) shifts_in)
              (if shifts_in = None then None else Some (map (\<lambda>j. int j + 2) [0..<spatial_dim]))
              (dims_lengths spatial_dim num_heads head_dim grid_size patch_size)))"

definition Tensorize_init ::
  "int option list \<Rightarrow> int option \<Rightarrow> int option \<Rightarrow> size_arg option \<Rightarrow> size_arg option
   \<Rightarrow> shift_arg option \<Rightarrow> error + Reshape" where
  "Tensorize_init input_size_in num_heads head_dim grid_size patch_size shifts_in =
     (if num_heads = None \<and> head_dim = None then Inl AssertionError
      else if grid_size = None \<and> patch_size = None then Inl AssertionError
      else (let spatial_dim = length input_size_in - 2 in
            Reshape_init input_size_in
              (Some (left_pattern spatial_dim @ '' -> '' @ tensorize_right spatial_dim))
              (map_option (to_ntuple_shift spatial_dim) shifts_in)
              (if shifts_in = None then None else Some (map (\<lambda>j. int j + 2) [0..<spatial_dim]))
              (dims_lengths spatial_dim num_heads head_dim grid_size patch_size)))"

section \<open>Tensor operations of the windowed classes\<close>

text \<open>
  \<^verbatim>\<open>torch.cat(out)\<close> along axis 0: the list must not be empty, no tensor may be without
  axes, and all must agree on the axes after the first; the rows are put one after the
  other. (The library also skips empty one-axis tensors among tensors of another rank,
  which does not arise between results of one equation.)
\<close>

definition torch_cat :: "'a tensor list \<Rightarrow> error + 'a tensor" where
  "torch_cat ts =
     (case ts of
        [] \<Rightarrow> Inl RuntimeError
      | t # _ \<Rightarrow>
          if list_all (\<lambda>u. shape u \<noteq> [] \<and> tl (shape u) = tl (shape t)) ts
          then Inr \<lparr>shape = sum_list (map (\<lambda>u. hd (shape u)) ts) # tl (shape t),
                    data = concat (map data ts)\<rparr>
          else Inl RuntimeError)"






section \<open>\<^verbatim>\<open>SWMatricize\<close> and \<^verbatim>\<open>SWTensorize\<close>\<close>

text \<open>
  The two classes have the same attributes and, statement for statement, the same
  \<^verbatim>\<open>forward\<close> and \<^verbatim>\<open>inverse_forward\<close>; their constructors differ in the class of the
  variants only.
\<close>

record ShiftedWindows =
  shifted_windows :: "Reshape list"
  sw_output_size :: "int option list"

text \<open>
  \<^verbatim>\<open>shifts = [None, tuple(s // 2 for s in patch_size)]\<close>; a patch size that is \<open>None\<close>
  cannot be divided (TypeError).
\<close>

definition default_shifts :: "int option list \<Rightarrow> error + shift_arg option list" where
  "default_shifts patch =
     (if list_ex (\<lambda>p. p = None) patch then Inl TypeError
      else Inr [None, Some (ShiftSeq (map (\<lambda>p. the p div 2) patch))])"

fun build_windows ::
  "(shift_arg option \<Rightarrow> error + Reshape) \<Rightarrow> shift_arg option list \<Rightarrow> error + Reshape list" where
  "build_windows mk [] = Inr []"
| "build_windows mk (s # ss) =
     (case mk s of
        Inl e \<Rightarrow> Inl e
      | Inr w \<Rightarrow> (case build_windows mk ss of
                   Inl e \<Rightarrow> Inl e
                 | Inr ws \<Rightarrow> Inr (w # ws)))"

definition SW_init ::
  "(int option list \<Rightarrow> int option \<Rightarrow> int option \<Rightarrow> size_arg option \<Rightarrow> size_arg option
     \<Rightarrow> shift_arg option \<Rightarrow> error + Reshape)
   \<Rightarrow> int option list \<Rightarrow> int option \<Rightarrow> int option \<Rightarrow> size_arg option \<Rightarrow> size_arg option
   \<Rightarrow> shift_arg option list option \<Rightarrow> error + ShiftedWindows" where
  "SW_init variant input_size_in num_heads head_dim grid_size patch_size shifts_in =
     (let spatial_dim = length input_size_in - 2;
          patch = to_ntuple spatial_dim patch_size;
          grid = to_ntuple spatial_dim grid_size
      in case (case shifts_in of None \<Rightarrow> default_shifts patch | Some ss \<Rightarrow> Inr ss) of
           Inl e \<Rightarrow> Inl e
         | Inr ss \<Rightarrow>
             (case build_windows
                     (variant input_size_in num_heads head_dim (Some (Seq grid)) (Some (Seq patch)))
                     ss of
                Inl e \<Rightarrow> Inl e
              | Inr [] \<Rightarrow> Inl IndexError
              | Inr (w # ws) \<Rightarrow>
                  Inr \<lparr>shifted_windows = w # ws, sw_output_size = output_size w\<rparr>))"

definition SWMatricize_init ::
  "int option list \<Rightarrow> int option \<Rightarrow> int option \<Rightarrow> size_arg option \<Rightarrow> size_arg option
   \<Rightarrow> shift_arg option list option \<Rightarrow> error + ShiftedWindows" where
  "SWMatricize_init = SW_init Matricize_init"

definition SWTensorize_init ::
  "int option list \<Rightarrow> int option \<Rightarrow> int option \<Rightarrow> size_arg option \<Rightarrow> size_arg option
   \<Rightarrow> shift_arg option list option \<Rightarrow> error + ShiftedWindows" where
  "SWTensorize_init = SW_init Tensorize_init"

text \<open>\<^verbatim>\<open>forward\<close>: every variant on the same tensor, in order, then \<^verbatim>\<open>torch.cat\<close>.\<close>

fun forward_all :: "Reshape list \<Rightarrow> 'a tensor \<Rightarrow> error + 'a tensor list" where
  "forward_all [] x = Inr []"
| "forward_all (w # ws) x =
     (case forward w x of
        Inl e \<Rightarrow> Inl e
      | Inr y \<Rightarrow> (case forward_all ws x of
                   Inl e \<Rightarrow> Inl e
                 | Inr ys \<Rightarrow> Inr (y # ys)))"

definition SW_forward :: "ShiftedWindows \<Rightarrow> 'a tensor \<Rightarrow> error + 'a tensor" where
  "SW_forward self x =
     (case forward_all (shifted_windows self) x of
        Inl e \<Rightarrow> Inl e
      | Inr out \<Rightarrow> torch_cat out)"



section \<open>Contractions\<close>

text \<open>
  Modelled from the spec: \<^verbatim>\<open>oe.contract\<close> is imported from the opt_einsum library and is not
  in the repository. \<^verbatim>\<open>cp\<close> and \<^verbatim>\<open>khatri_rao\<close> call it in the interleaved form, every
  operand followed by the list of the names of its axes and the names of the axes of the
  output last. By section 4.5 of the specification the result is the direct nested sum
  (the order of contraction is an implementation choice): the output element at an index
  is the sum, over all indices of the names that are not in the output, of the product of
  the operands' elements at the indices of their names. Operands whose names do not fit
  their ranks, a name with two different extents, and an output name that is repeated or
  names no axis of an operand are refused.
\<close>

type_synonym 'a operand = "'a tensor \<times> string list"

definition leg_extents :: "'a operand list \<Rightarrow> (string \<times> nat) list" where
  "leg_extents ops = concat (map (\<lambda>(t, ls). zip ls (shape t)) ops)"

definition leg_index :: "string list \<Rightarrow> nat list \<Rightarrow> string \<Rightarrow> nat" where
  "leg_index names idx a = (case map_of (zip names idx) a of Some i \<Rightarrow> i | None \<Rightarrow> 0)"

definition contract :: "'a::semiring_1 operand list \<Rightarrow> string list \<Rightarrow> error + 'a tensor" where
  "contract ops out_legs =
     (let al = leg_extents ops;
          summed = filter (\<lambda>a. a \<notin> set out_legs) (remdups (map fst al))
      in if ops = [] \<or> list_ex (\<lambda>(t, ls). length ls \<noteq> length (shape t)) ops
            \<or> list_ex (\<lambda>(a, n). map_of al a \<noteq> Some n) al
            \<or> \<not> distinct out_legs \<or> list_ex (\<lambda>a. map_of al a = None) out_legs
         then Inl ValueError
         else (let osh = map (axis_len al) out_legs;
                   ssh = map (axis_len al) summed
               in Inr \<lparr>shape = osh,
                       data = map (\<lambda>k. sum_list (map (\<lambda>j. prod_list (map (\<lambda>(t, ls).
                                          data t ! ravel (shape t)
                                            (map (leg_index (out_legs @ summed)
                                                    (unravel osh k @ unravel ssh j)) ls)) ops))
                                        [0..<prod_list ssh]))
                                  [0..<prod_list osh]\<rparr>))"

text \<open>
  \<^verbatim>\<open>torch.flatten(out, start_dim=1, end_dim=-2)\<close>: the axes from the second to the last but
  one become one axis, the elements stay in their order. With fewer than two axes the axis
  numbers are out of range, with two the start comes after the end.
\<close>

definition flatten_inner :: "'a tensor \<Rightarrow> error + 'a tensor" where
  "flatten_inner x =
     (if length (shape x) < 2 then Inl IndexError
      else if length (shape x) = 2 then Inl RuntimeError
      else Inr \<lparr>shape = [hd (shape x), prod_list (butlast (tl (shape x))), last (shape x)],
                data = data x\<rparr>)"

text \<open>
  The loop that \<^verbatim>\<open>cp\<close> and \<^verbatim>\<open>khatri_rao\<close> share: for the \<open>m\<close>-th factor matrix \<open>u\<close> it
  appends \<open>u\<close> with the names \<^verbatim>\<open>["b", f"i{m}", "r"]\<close> to the operands and \<^verbatim>\<open>f"i{m}"\<close> to the
  output names, which start as \<^verbatim>\<open>["b"]\<close>.
\<close>

definition legs_loop :: "'a tensor list \<Rightarrow> 'a operand list \<times> string list" where
  "legs_loop factor_matrices =
     fold (\<lambda>(m, u) (args, legs).
             (args @ [(u, [''b'', ''i'' @ str_nat m, ''r''])], legs @ [''i'' @ str_nat m]))
          (enumerate 0 factor_matrices) ([], [''b''])"

definition cp :: "'a::semiring_1 tensor list \<Rightarrow> error + 'a tensor" where
  "cp factor_matrices =
     (case legs_loop factor_matrices of (args, legs) \<Rightarrow> contract args legs)"

definition khatri_rao :: "'a::semiring_1 tensor list \<Rightarrow> error + 'a tensor" where
  "khatri_rao factor_matrices =
     (case legs_loop factor_matrices of
        (args, legs) \<Rightarrow>
          (case contract args (legs @ [''r'']) of
             Inl e \<Rightarrow> Inl e
           | Inr out \<Rightarrow> flatten_inner out))"

section \<open>Properties of \<^verbatim>\<open>infer_dims\<close>\<close>

lemma fold_upd_other:
  "u \<notin> set ds \<Longrightarrow> fold (\<lambda>d m. m(d \<mapsto> f d)) ds m u = m u"
  by (induction ds arbitrary: m) auto

lemma fold_upd_mem:
  "u \<in> set ds \<Longrightarrow> fold (\<lambda>d m. m(d \<mapsto> f d)) ds m u = Some (f u)"
proof (induction ds arbitrary: m)
  case Nil
  then show ?case by simp
next
  case (Cons d ds)
  show ?case
  proof (cases "u \<in> set ds")
    case True
    then show ?thesis using Cons.IH by simp
  next
    case False
    then have "d = u" using Cons.prems by simp
    have "fold (\<lambda>d m. m(d \<mapsto> f d)) (d # ds) m u =
          fold (\<lambda>d m. m(d \<mapsto> f d)) ds (m(d \<mapsto> f d)) u"
      by (simp only: fold.simps comp_apply)
    also have "\<dots> = (m(d \<mapsto> f d)) u"
      by (rule fold_upd_other[OF False])
    also have "\<dots> = Some (f u)"
      using \<open>d = u\<close> by simp
    finally show ?thesis .
  qed
qed

lemma fold_copy_other:
  "u \<notin> set ds \<Longrightarrow>
   fold (\<lambda>d m. case dl d of Some v \<Rightarrow> m(d \<mapsto> v) | None \<Rightarrow> m) ds m u = m u"
  by (induction ds arbitrary: m) (auto split: option.splits)

lemma fold_copy_unknown:
  "dl u = None \<Longrightarrow>
   fold (\<lambda>d m. case dl d of Some v \<Rightarrow> m(d \<mapsto> v) | None \<Rightarrow> m) ds m u = m u"
  by (induction ds arbitrary: m) (auto split: option.splits)


lemma infer_step_other:
  assumes "infer_step dl gs acc = Inr m" and "u \<notin> set (group_dims (fst gs))"
  shows "m u = acc u"
  using assms
  by (auto simp: infer_step_def Let_def fold_upd_other fold_copy_other
           split: option.splits if_splits)

lemma infer_loop_other:
  "infer_loop dl gss acc = Inr m \<Longrightarrow> \<forall>gs \<in> set gss. u \<notin> set (group_dims (fst gs)) \<Longrightarrow>
   m u = acc u"
proof (induction gss arbitrary: acc)
  case Nil
  then show ?case by simp
next
  case (Cons gs gss)
  from Cons.prems(1) obtain m' where s: "infer_step dl gs acc = Inr m'"
    and l: "infer_loop dl gss m' = Inr m"
    by (auto split: sum.splits)
  have "m u = m' u" using Cons.IH[OF l] Cons.prems(2) by simp
  also have "m' u = acc u" using infer_step_other[OF s] Cons.prems(2) by simp
  finally show ?case .
qed

lemma single_unknown_length:
  assumes "filter (\<lambda>d. dl d = None) ds = [u]"
  shows "int (length (known_dims dl ds)) = int (length ds) - 1"
proof -
  have "length (filter (\<lambda>d. dl d \<noteq> None) ds) + length (filter (\<lambda>d. \<not> dl d \<noteq> None) ds) = length ds"
    by (rule sum_length_filter_compl)
  then show ?thesis using assms by (simp add: known_dims_def)
qed

lemma infer_step_unknown:
  assumes "infer_step dl (g, Some n) acc = Inr m"
    and "filter (\<lambda>d. dl d = None) (group_dims g) = [u]"
  shows "m u = Some (n div known_product dl (group_dims g))"
proof -
  have u: "u \<in> set (group_dims g)" and un: "dl u = None"
  proof -
    have "u \<in> set (filter (\<lambda>d. dl d = None) (group_dims g))"
      using assms(2) by simp
    then show "u \<in> set (group_dims g)" and "dl u = None" by simp_all
  qed
  show ?thesis
    using assms(1) single_unknown_length[OF assms(2)] un
    by (auto simp: infer_step_def Let_def fold_upd_mem[OF u] split: if_splits)
qed

lemma infer_loop_at:
  "infer_loop dl gss acc = Inr m \<Longrightarrow> i < length gss \<Longrightarrow> gss ! i = (g, Some n) \<Longrightarrow>
   filter (\<lambda>d. dl d = None) (group_dims g) = [u] \<Longrightarrow>
   (\<forall>j < length gss. j \<noteq> i \<longrightarrow> u \<notin> set (group_dims (fst (gss ! j)))) \<Longrightarrow>
   m u = Some (n div known_product dl (group_dims g))"
proof (induction gss arbitrary: acc i)
  case Nil
  then show ?case by simp
next
  case (Cons gs gss)
  from Cons.prems(1) obtain m' where s: "infer_step dl gs acc = Inr m'"
    and l: "infer_loop dl gss m' = Inr m"
    by (auto split: sum.splits)
  show ?case
  proof (cases i)
    case 0
    then have gs: "gs = (g, Some n)" using Cons.prems(3) by simp
    have "\<forall>x \<in> set gss. u \<notin> set (group_dims (fst x))"
    proof
      fix x assume "x \<in> set gss"
      then obtain k where "k < length gss" "gss ! k = x" by (auto simp: in_set_conv_nth)
      then show "u \<notin> set (group_dims (fst x))"
        using Cons.prems(5)[rule_format, of "Suc k"] 0 by auto
    qed
    then have "m u = m' u" using infer_loop_other[OF l] by simp
    then show ?thesis using infer_step_unknown[OF s[unfolded gs] Cons.prems(4)] by simp
  next
    case (Suc i')
    have "\<forall>j<length gss. j \<noteq> i' \<longrightarrow> u \<notin> set (group_dims (fst (gss ! j)))"
      using Cons.prems(5) Suc by auto
    then show ?thesis
      using Cons.IH[OF l, of i'] Cons.prems(2,3,4) Suc by simp
  qed
qed

lemma foldl_mult_nonzero:
  "(a::int) \<noteq> 0 \<Longrightarrow> \<forall>x \<in> set xs. x \<noteq> 0 \<Longrightarrow> foldl (\<lambda>x y. x * y) a xs \<noteq> 0"
  by (induction xs arbitrary: a) auto

lemma known_product_nonzero:
  assumes "\<forall>k v. dl k = Some v \<longrightarrow> v \<noteq> 0"
  shows "known_product dl ds \<noteq> 0"
  unfolding known_product_def known_dims_def
  using assms by (intro foldl_mult_nonzero) auto

lemma infer_step_returns:
  assumes "\<forall>k v. dl k = Some v \<longrightarrow> v \<noteq> 0"
  shows "\<exists>m. infer_step dl gs acc = Inr m"
  using known_product_nonzero[OF assms]
  by (simp add: infer_step_def Let_def split: option.splits)

lemma infer_loop_returns:
  assumes "\<forall>k v. dl k = Some v \<longrightarrow> v \<noteq> 0"
  shows "\<exists>m. infer_loop dl gss acc = Inr m"
proof (induction gss arbitrary: acc)
  case Nil
  then show ?case by simp
next
  case (Cons gs gss)
  obtain m' where "infer_step dl gs acc = Inr m'"
    using infer_step_returns[OF assms] by blast
  then show ?case using Cons.IH[of m'] by simp
qed

text \<open>
  Claim C6. In \<^verbatim>\<open>infer_dims\<close>, a group whose declared size \<open>n\<close> is known and in which
  exactly one member \<open>u\<close> has no supplied length gets \<open>u\<close> set to \<open>n\<close> floor-divided by
  the product of the supplied lengths of the other members (the empty product is 1), with
  no test of divisibility: the call returns a dictionary (it does so whenever no supplied
  length is zero) and the entry of \<open>u\<close> is that quotient, \<open>u\<close> being a member of no other
  group. Size 7 with \<open>h = 2\<close> gives \<open>d = 3\<close>. For the input shape \<open>(None, 8, 16, 16)\<close>,
  the pattern \<open>b (h d) (g0 p0) (g1 p1)\<close> and \<open>h = 2\<close>, \<open>g0 = 4\<close>, \<open>g1 = 4\<close> the result
  has \<open>d = 4\<close>, \<open>p0 = 4\<close>, \<open>p1 = 4\<close>.
\<close>

theorem infer_dims_floor_division:
  "((\<forall>k v. kw k = Some v \<longrightarrow> v \<noteq> 0) \<longrightarrow>
    (\<exists>m. infer_dims pattern size_in kw = Inr m \<and>
      (\<forall>i n u. i < length (re_findall pattern) \<and> i < length size_in \<and> size_in ! i = Some n \<and>
          filter (\<lambda>d. kw d = None) (group_dims (re_findall pattern ! i)) = [u] \<and>
          (\<forall>j < length (re_findall pattern). j \<noteq> i \<longrightarrow>
               u \<notin> set (group_dims (re_findall pattern ! j))) \<longrightarrow>
          m u = Some (n div known_product kw (group_dims (re_findall pattern ! i))))))
   \<and> infer_dims ''(h d)'' [Some 7] [''h'' \<mapsto> 2] = Inr [''h'' \<mapsto> 2, ''d'' \<mapsto> 3]
   \<and> infer_dims ''b (h d) (g0 p0) (g1 p1)'' [None, Some 8, Some 16, Some 16]
        [''h'' \<mapsto> 2, ''g0'' \<mapsto> 4, ''g1'' \<mapsto> 4] =
      Inr [''h'' \<mapsto> 2, ''d'' \<mapsto> 4, ''g0'' \<mapsto> 4, ''p0'' \<mapsto> 4, ''g1'' \<mapsto> 4, ''p1'' \<mapsto> 4]"
proof (intro conjI impI)
  assume nz: "\<forall>k v. kw k = Some v \<longrightarrow> v \<noteq> 0"
  let ?gss = "zip (re_findall pattern) size_in"
  obtain m where m: "infer_loop kw ?gss Map.empty = Inr m"
    using infer_loop_returns[OF nz] by blast
  show "\<exists>m. infer_dims pattern size_in kw = Inr m \<and>
      (\<forall>i n u. i < length (re_findall pattern) \<and> i < length size_in \<and> size_in ! i = Some n \<and>
          filter (\<lambda>d. kw d = None) (group_dims (re_findall pattern ! i)) = [u] \<and>
          (\<forall>j < length (re_findall pattern). j \<noteq> i \<longrightarrow>
               u \<notin> set (group_dims (re_findall pattern ! j))) \<longrightarrow>
          m u = Some (n div known_product kw (group_dims (re_findall pattern ! i))))"
  proof (intro exI[of _ m] conjI allI impI)
    show "infer_dims pattern size_in kw = Inr m"
      using m by (simp add: infer_dims_def)
  next
    fix i n u
    assume a: "i < length (re_findall pattern) \<and> i < length size_in \<and> size_in ! i = Some n \<and>
          filter (\<lambda>d. kw d = None) (group_dims (re_findall pattern ! i)) = [u] \<and>
          (\<forall>j < length (re_findall pattern). j \<noteq> i \<longrightarrow>
               u \<notin> set (group_dims (re_findall pattern ! j)))"
    have i: "i < length ?gss" using a by simp
    have nth: "?gss ! i = (re_findall pattern ! i, Some n)" using a by simp
    have others: "\<forall>j < length ?gss. j \<noteq> i \<longrightarrow> u \<notin> set (group_dims (fst (?gss ! j)))"
      using a by simp
    show "m u = Some (n div known_product kw (group_dims (re_findall pattern ! i)))"
      using infer_loop_at[OF m i nth _ others] a by blast
  qed
next
  show "infer_dims ''(h d)'' [Some 7] [''h'' \<mapsto> 2] = Inr [''h'' \<mapsto> 2, ''d'' \<mapsto> 3]"
    by (simp add: infer_dims_def infer_step_def known_dims_def known_product_def
                  group_dims_def split_ws_def is_word_def is_space_def)
next
  show "infer_dims ''b (h d) (g0 p0) (g1 p1)'' [None, Some 8, Some 16, Some 16]
        [''h'' \<mapsto> 2, ''g0'' \<mapsto> 4, ''g1'' \<mapsto> 4] =
      Inr [''h'' \<mapsto> 2, ''d'' \<mapsto> 4, ''g0'' \<mapsto> 4, ''p0'' \<mapsto> 4, ''g1'' \<mapsto> 4, ''p1'' \<mapsto> 4]"
    by (simp add: infer_dims_def infer_step_def known_dims_def known_product_def
                  group_dims_def split_ws_def is_word_def is_space_def)
qed

theorem infer_dims_floor_division_witness:
  "\<exists>m. infer_dims ''b (h d)'' [Some 3, Some 7] [''h'' \<mapsto> 2] = Inr m \<and> m ''d'' = Some 3"
proof -
  have nz: "\<forall>k v. [''h'' \<mapsto> (2::int)] k = Some v \<longrightarrow> v \<noteq> 0" by simp
  have g: "map group_dims (re_findall ''b (h d)'') = [[''b''], [''h'', ''d'']]"
    by (simp add: group_dims_def split_ws_def is_word_def is_space_def)
  from infer_dims_floor_division[of "[''h'' \<mapsto> 2]" "''b (h d)''" "[Some 3, Some 7]"] nz
  obtain m where m: "infer_dims ''b (h d)'' [Some 3, Some 7] [''h'' \<mapsto> 2] = Inr m"
    and all: "\<forall>i n u. i < length (re_findall ''b (h d)'') \<and> i < length [Some (3::int), Some 7] \<and>
          [Some (3::int), Some 7] ! i = Some n \<and>
          filter (\<lambda>d. [''h'' \<mapsto> (2::int)] d = None) (group_dims (re_findall ''b (h d)'' ! i)) = [u] \<and>
          (\<forall>j < length (re_findall ''b (h d)''). j \<noteq> i \<longrightarrow>
               u \<notin> set (group_dims (re_findall ''b (h d)'' ! j))) \<longrightarrow>
          m u = Some (n div known_product [''h'' \<mapsto> 2] (group_dims (re_findall ''b (h d)'' ! i)))"
    by blast
  have "m ''d'' = Some (7 div known_product [''h'' \<mapsto> 2] (group_dims (re_findall ''b (h d)'' ! 1)))"
    by (rule all[rule_format, of 1 7 "''d''"])
       (simp add: group_dims_def split_ws_def is_word_def is_space_def less_Suc_eq)
  then have "m ''d'' = Some 3"
    by (simp add: known_product_def known_dims_def group_dims_def split_ws_def is_word_def is_space_def)
  with m show ?thesis by blast
qed

section \<open>Malformed equations\<close>

lemmas string_eval = is_word_def is_space_def is_identifier_def split_ws_def group_dims_def
  strip_def lstrip_def rstrip_def

lemma parse_unbalanced: "parse_side ''(a b '' = Inl MalformedEquationError"
  by (simp add: string_eval)

lemma split_unbalanced: "split_arrow ''(a b -> a b'' = [''(a b '', '' a b'']"
  by simp

lemma rearrange_unbalanced:
  "Rearrange_init ''(a b -> a b'' kw = Inl MalformedEquationError"
  unfolding Rearrange_init_def split_unbalanced by (simp add: parse_unbalanced)

lemma parse_ab: "parse_side ''a b '' = Inr [[''a''], [''b'']]"
  by (simp add: string_eval)

lemma parse_ac: "parse_side '' a c'' = Inr [[''a''], [''c'']]"
  by (simp add: string_eval)

lemma split_mismatch: "split_arrow ''a b -> a c'' = [''a b '', '' a c'']"
  by simp

lemma rearrange_mismatch:
  "Rearrange_init ''a b -> a c'' kw = Inl MalformedEquationError"
proof -
  have c: "''c'' \<in> set [''a'', ''c'']" by simp
  have nc: "''c'' \<notin> set [''a'', ''b'']" by simp
  have "set [''a'', ''b''] \<noteq> set [''a'', ''c'']"
  proof
    assume "set [''a'', ''b''] = set [''a'', ''c'']"
    with c have "''c'' \<in> set [''a'', ''b'']" by (simp only:)
    with nc show False ..
  qed
  then have ne: "set (concat [[''a''], [''b'']]) \<noteq> set (concat [[''a''], [''c'']])"
    by simp
  show ?thesis unfolding Rearrange_init_def split_mismatch parse_ab parse_ac
    using ne by simp
qed

text \<open>
  Claim C9. Constructing a \<^verbatim>\<open>Reshape\<close> with the equation \<^verbatim>\<open>"(a b -> a b"\<close> (a parenthesis
  that is never closed) fails with MalformedEquationError, and so does the equation
  \<^verbatim>\<open>"a b -> a c"\<close> (the two sides do not have the same names), whatever the input size,
  the shifts and the supplied lengths are: the failure is the result of the constructor,
  so no tensor has been processed.
\<close>

theorem malformed_equations_rejected:
  "Reshape_init input_size_in (Some ''(a b -> a b'') shifts_in dims_in kwargs
      = Inl MalformedEquationError
   \<and> Reshape_init input_size_in (Some ''a b -> a c'') shifts_in dims_in kwargs
      = Inl MalformedEquationError"
  unfolding Reshape_init_def
  by (simp add: split_unbalanced split_mismatch rearrange_unbalanced rearrange_mismatch)

section \<open>The constructors of \<^verbatim>\<open>Matricize\<close> and \<^verbatim>\<open>Tensorize\<close>\<close>

lemma matricize_scenario:
  "(case Matricize_init [Some 1, Some 4, Some 8, Some 8] (Some 2) (Some 2)
           (Some (Scalar 2)) (Some (Scalar 4)) None of
      Inl e \<Rightarrow> None | Inr r \<Rightarrow> Some (output_size r))
   = Some [Some 2, Some 4, Some 2, Some 16]"
  by code_simp

lemma tensorize_scenario:
  "(case Tensorize_init [Some 1, Some 4, Some 8, Some 8] (Some 2) (Some 2)
           (Some (Scalar 2)) (Some (Scalar 4)) None of
      Inl e \<Rightarrow> Some e | Inr r \<Rightarrow> None) = Some MalformedEquationError"
  by code_simp

lemma tensorize_scenario_size:
  "compute_size (tensorize_right 2)
     (dims_lengths 2 (Some 2) (Some 2) (Some (Scalar 2)) (Some (Scalar 4)))
   = Inr [Some 4, Some 2, Some 4, Some 4]"
  by code_simp

lemma tensorize_scenario_equation:
  "left_pattern 2 @ '' -> '' @ tensorize_right 2
     = ''b (h d) (g0 p0) (g1 p1) -> (g0 g1) d p0 p1''"
  by code_simp

text \<open>
  Claim C2. For the input shape \<open>(1, 4, 8, 8)\<close> with \<open>numHeads = 2\<close>, \<open>headDim = 2\<close>,
  \<open>gridSize = 2\<close>, \<open>patchSize = 4\<close> and no shift, \<^verbatim>\<open>Matricize\<close> constructs and has the output
  shape \<open>(2, 4, 2, 16)\<close>, as the claim says. \<^verbatim>\<open>Tensorize\<close> does not: its equation is
  \<open>b (h d) (g0 p0) (g1 p1) -> (g0 g1) d p0 p1\<close>, without the group \<open>(b h)\<close>, which the
  pattern layer refuses; and the sizes \<^verbatim>\<open>compute_size\<close> gives for that right side are
  \<open>(4, 2, 4, 4)\<close>, of rank 4, not the \<open>(2, 4, 2, 4, 4)\<close> of the claim.
\<close>

theorem tensorize_drops_batch_heads:
  "(\<exists>r. Matricize_init [Some 1, Some 4, Some 8, Some 8] (Some 2) (Some 2)
           (Some (Scalar 2)) (Some (Scalar 4)) None = Inr r
        \<and> output_size r = [Some 2, Some 4, Some 2, Some 16])
   \<and> Tensorize_init [Some 1, Some 4, Some 8, Some 8] (Some 2) (Some 2)
           (Some (Scalar 2)) (Some (Scalar 4)) None = Inl MalformedEquationError
   \<and> left_pattern 2 @ '' -> '' @ tensorize_right 2
       = ''b (h d) (g0 p0) (g1 p1) -> (g0 g1) d p0 p1''
   \<and> compute_size (tensorize_right 2)
       (dims_lengths 2 (Some 2) (Some 2) (Some (Scalar 2)) (Some (Scalar 4)))
     = Inr [Some 4, Some 2, Some 4, Some 4]"
proof (intro conjI)
  show "\<exists>r. Matricize_init [Some 1, Some 4, Some 8, Some 8] (Some 2) (Some 2)
           (Some (Scalar 2)) (Some (Scalar 4)) None = Inr r
        \<and> output_size r = [Some 2, Some 4, Some 2, Some 16]"
    using matricize_scenario by (simp split: sum.splits)
  show "Tensorize_init [Some 1, Some 4, Some 8, Some 8] (Some 2) (Some 2)
           (Some (Scalar 2)) (Some (Scalar 4)) None = Inl MalformedEquationError"
    using tensorize_scenario by (simp split: sum.splits)
  show "left_pattern 2 @ '' -> '' @ tensorize_right 2
       = ''b (h d) (g0 p0) (g1 p1) -> (g0 g1) d p0 p1''"
    by (rule tensorize_scenario_equation)
  show "compute_size (tensorize_right 2)
       (dims_lengths 2 (Some 2) (Some 2) (Some (Scalar 2)) (Some (Scalar 4)))
     = Inr [Some 4, Some 2, Some 4, Some 4]"
    by (rule tensorize_scenario_size)
qed

lemma parse_side_error: "parse_side s = Inl e \<Longrightarrow> e = MalformedEquationError"
proof (induction s arbitrary: e rule: parse_side.induct)
  case 1
  then show ?case by simp
next
  case (2 c cs)
  then show ?case
    by (auto split: if_splits sum.splits simp del: split_on.simps)
qed

lemma Rearrange_init_error:
  "Rearrange_init p kw = Inl e \<Longrightarrow> e = MalformedEquationError \<or> e = ShapeMismatchError"
  unfolding Rearrange_init_def
  by (auto split: list.splits sum.splits if_splits dest: parse_side_error)

lemma infer_step_error: "infer_step kw gs acc = Inl e \<Longrightarrow> e = ZeroDivisionError"
  unfolding infer_step_def by (auto simp: Let_def split: option.splits if_splits)

lemma infer_loop_error: "infer_loop kw gss acc = Inl e \<Longrightarrow> e = ZeroDivisionError"
  by (induction gss arbitrary: acc) (auto split: sum.splits dest: infer_step_error)

lemma group_size_error: "group_size kw g = Inl e \<Longrightarrow> e = TypeError"
  unfolding group_size_def by (auto simp: Let_def split: if_splits list.splits)

lemma compute_loop_error: "compute_loop kw gs = Inl e \<Longrightarrow> e = TypeError"
  by (induction gs arbitrary: e) (auto split: sum.splits dest: group_size_error)

lemma Reshape_init_no_assertion:
  "Reshape_init isz eq sh ds kw \<noteq> Inl AssertionError"
proof
  assume a: "Reshape_init isz eq sh ds kw = Inl AssertionError"
  show False
  proof (cases eq)
    case None
    with a show False by (simp add: Reshape_init_def)
  next
    case (Some q)
    with a show False
      unfolding Reshape_init_def infer_dims_def compute_size_def
      by (auto split: list.splits sum.splits
               dest: Rearrange_init_error infer_loop_error compute_loop_error)
  qed
qed

text \<open>
  Claim C8, as the code has it. The two \<^verbatim>\<open>assert\<close> statements of \<^verbatim>\<open>Matricize\<close> and of
  \<^verbatim>\<open>Tensorize\<close> fail (AssertionError, the ConfigurationError of the specification) exactly
  when neither \<open>numHeads\<close> nor \<open>headDim\<close> is supplied, or neither \<open>gridSize\<close> nor
  \<open>patchSize\<close>. Supplying both members of a pair is never rejected with that error.
\<close>

theorem assertions_reject_only_missing_pairs:
  "(Matricize_init isz num_heads head_dim grid_size patch_size sh = Inl AssertionError
      \<longleftrightarrow> (num_heads = None \<and> head_dim = None) \<or> (grid_size = None \<and> patch_size = None))
   \<and> (Tensorize_init isz num_heads head_dim grid_size patch_size sh = Inl AssertionError
      \<longleftrightarrow> (num_heads = None \<and> head_dim = None) \<or> (grid_size = None \<and> patch_size = None))"
  unfolding Matricize_init_def Tensorize_init_def Let_def
  using Reshape_init_no_assertion by auto

text \<open>
  The claim as the specification states it fails on the scenario of the specification
  itself: with both \<open>numHeads\<close> and \<open>headDim\<close> and both \<open>gridSize\<close> and \<open>patchSize\<close>
  supplied, \<^verbatim>\<open>Matricize\<close> is constructed.
\<close>

theorem both_of_a_pair_accepted:
  "\<not> isl (Matricize_init [Some 1, Some 4, Some 8, Some 8] (Some 2) (Some 2)
             (Some (Scalar 2)) (Some (Scalar 4)) None)"
  by code_simp

section \<open>Decimal names\<close>

text \<open>The decimal numerals of different numbers are different.\<close>

lemma digit_inj:
  "m < 10 \<Longrightarrow> n < 10 \<Longrightarrow> ''0123456789'' ! m = ''0123456789'' ! n \<Longrightarrow> m = n"
proof -
  assume m: "m < 10" and n: "n < 10" and e: "''0123456789'' ! m = ''0123456789'' ! n"
  have d: "distinct ''0123456789''" by simp
  have "m < length ''0123456789''" "n < length ''0123456789''" using m n by simp_all
  with d e show "m = n" by (simp only: nth_eq_iff_index_eq)
qed

lemma str_nat_nonempty: "str_nat n \<noteq> []"
  by (subst str_nat.simps) simp

lemma str_nat_inj: "str_nat m = str_nat n \<Longrightarrow> m = n"
proof (induction m arbitrary: n rule: str_nat.induct)
  case (1 m)
  show ?case
  proof (cases "m < 10")
    case True
    show ?thesis
    proof (cases "n < 10")
      case n: True
      from "1.prems" True n have "''0123456789'' ! m = ''0123456789'' ! n"
        by (simp add: str_nat.simps [of m] str_nat.simps [of n])
      with True n show ?thesis by (rule digit_inj)
    next
      case n: False
      from "1.prems" True n have "[''0123456789'' ! m] = str_nat (n div 10) @ [''0123456789'' ! (n mod 10)]"
        by (simp add: str_nat.simps [of m] str_nat.simps [of n])
      then have "str_nat (n div 10) = []" by simp
      with str_nat_nonempty show ?thesis by blast
    qed
  next
    case False
    show ?thesis
    proof (cases "n < 10")
      case n: True
      from "1.prems" False n have "str_nat (m div 10) @ [''0123456789'' ! (m mod 10)] = [''0123456789'' ! n]"
        by (simp add: str_nat.simps [of m] str_nat.simps [of n])
      then have "str_nat (m div 10) = []" by simp
      with str_nat_nonempty show ?thesis by blast
    next
      case n: False
      from "1.prems" False n
      have "str_nat (m div 10) @ [''0123456789'' ! (m mod 10)]
            = str_nat (n div 10) @ [''0123456789'' ! (n mod 10)]"
        by (simp add: str_nat.simps [of m] str_nat.simps [of n])
      then have a: "str_nat (m div 10) = str_nat (n div 10)"
        and b: "''0123456789'' ! (m mod 10) = ''0123456789'' ! (n mod 10)" by simp_all
      from "1.IH" [OF False a] have q: "m div 10 = n div 10" .
      have "m mod 10 < 10" "n mod 10 < 10" by simp_all
      from digit_inj [OF this b] have r: "m mod 10 = n mod 10" .
      from q r show ?thesis by (metis div_mult_mod_eq)
    qed
  qed
qed

section \<open>The equations of \<^verbatim>\<open>Matricize\<close> and \<^verbatim>\<open>Tensorize\<close>\<close>

subsection \<open>Splitting at the arrow\<close>

lemma split_arrow_nonempty: "split_arrow s \<noteq> []"
  by (induction s rule: split_arrow.induct) (auto split: list.splits)

lemma split_arrow_no_dash: "CHR ''-'' \<notin> set s \<Longrightarrow> split_arrow s = [s]"
  by (induction s rule: split_arrow.induct) (auto split: list.splits)

lemma split_arrow_at:
  "CHR ''-'' \<notin> set p \<Longrightarrow> split_arrow (p @ ''->'' @ q) = p # split_arrow q"
proof (induction p)
  case Nil
  show ?case by simp
next
  case (Cons c p)
  then have c: "c \<noteq> CHR ''-''" and p: "CHR ''-'' \<notin> set p" by auto
  obtain d r where e: "p @ ''->'' @ q = d # r" by (cases "p @ ''->'' @ q") simp_all
  have "split_arrow (c # d # r) = (c # p) # split_arrow q"
    using c Cons.IH [OF p] e by simp
  then show ?case using e by simp
qed

lemma str_nat_digits: "set (str_nat n) \<subseteq> set ''0123456789''"
proof (induction n rule: str_nat.induct)
  case (1 n)
  have d: "''0123456789'' ! k \<in> set ''0123456789''" if "k < 10" for k
    using that by (intro nth_mem) simp
  show ?case
  proof (cases "n < 10")
    case True
    then show ?thesis using d [of n] by (subst str_nat.simps) simp
  next
    case False
    have "n mod 10 < 10" by simp
    from d [OF this] "1.IH" [OF False] False show ?thesis
      by (subst str_nat.simps) simp
  qed
qed

lemma str_nat_notin: "c \<notin> set ''0123456789'' \<Longrightarrow> c \<notin> set (str_nat n)"
  using str_nat_digits [of n] by blast

lemma join_sp_notin:
  "c \<noteq> CHR '' '' \<Longrightarrow> \<forall>x\<in>set xs. c \<notin> set x \<Longrightarrow> c \<notin> set (join_sp xs)"
  by (induction xs rule: join_sp.induct) auto

lemma left_pattern_no_dash: "CHR ''-'' \<notin> set (left_pattern sd)"
proof -
  have n: "CHR ''-'' \<notin> set (str_nat i)" for i by (rule str_nat_notin) simp
  have "CHR ''-'' \<notin> set (join_sp (map (\<lambda>i. ''(g'' @ str_nat i @ '' p'' @ str_nat i @ '')'')
                                        [0..<sd]))"
    by (rule join_sp_notin) (simp_all add: n)
  then show ?thesis unfolding left_pattern_def by simp
qed

lemma matricize_right_no_dash: "CHR ''-'' \<notin> set (matricize_right sd)"
proof -
  have n: "CHR ''-'' \<notin> set (str_nat i)" for i by (rule str_nat_notin) simp
  have "CHR ''-'' \<notin> set (join_sp (map (\<lambda>i. ''g'' @ str_nat i) [0..<sd]))"
    "CHR ''-'' \<notin> set (join_sp (map (\<lambda>i. ''p'' @ str_nat i) [0..<sd]))"
    by (rule join_sp_notin; simp add: n)+
  then show ?thesis unfolding matricize_right_def by simp
qed

lemma tensorize_right_no_dash: "CHR ''-'' \<notin> set (tensorize_right sd)"
proof -
  have n: "CHR ''-'' \<notin> set (str_nat i)" for i by (rule str_nat_notin) simp
  have "CHR ''-'' \<notin> set (join_sp (map (\<lambda>i. ''g'' @ str_nat i) [0..<sd]))"
    "CHR ''-'' \<notin> set (join_sp (map (\<lambda>i. ''p'' @ str_nat i) [0..<sd]))"
    by (rule join_sp_notin; simp add: n)+
  then show ?thesis unfolding tensorize_right_def by simp
qed

lemma tensorize_right_no_b: "CHR ''b'' \<notin> set (tensorize_right sd)"
proof -
  have n: "CHR ''b'' \<notin> set (str_nat i)" for i by (rule str_nat_notin) simp
  have "CHR ''b'' \<notin> set (join_sp (map (\<lambda>i. ''g'' @ str_nat i) [0..<sd]))"
    "CHR ''b'' \<notin> set (join_sp (map (\<lambda>i. ''p'' @ str_nat i) [0..<sd]))"
    by (rule join_sp_notin; simp add: n)+
  then show ?thesis unfolding tensorize_right_def by simp
qed

subsection \<open>Names and first groups of a parsed side\<close>

lemma split_on_chars: "a \<in> set (split_on P s) \<Longrightarrow> set a \<subseteq> set s"
proof (induction P s rule: split_on.induct)
  case (1 P)
  then show ?case by simp
next
  case (2 P c cs)
  show ?case
  proof (cases "P c")
    case True
    with 2 show ?thesis by auto
  next
    case False
    with "2.prems" consider "a = c # takeWhile (\<lambda>x. \<not> P x) cs"
      | "a \<in> set (split_on P (dropWhile (\<lambda>x. \<not> P x) cs))" by auto
    then show ?thesis
    proof cases
      case 1
      then show ?thesis using set_takeWhileD [of _ "\<lambda>x. \<not> P x" cs] by auto
    next
      case 2
      from "2.IH"(2) [OF False this] have "set a \<subseteq> set (dropWhile (\<lambda>x. \<not> P x) cs)" .
      then show ?thesis using set_dropWhileD [of _ "\<lambda>x. \<not> P x" cs] by auto
    qed
  qed
qed

lemma parse_names_chars:
  "parse_side s = Inr gs \<Longrightarrow> g \<in> set gs \<Longrightarrow> a \<in> set g \<Longrightarrow> set a \<subseteq> set s"
proof (induction s arbitrary: gs rule: parse_side.induct)
  case 1
  then show ?case by simp
next
  case (2 c cs)
  show ?case
  proof (cases "c = CHR '' ''")
    case True
    with "2.prems" have "parse_side cs = Inr gs" by simp
    from "2.IH"(1) [OF True this "2.prems"(2,3)] show ?thesis by auto
  next
    case sp: False
    show ?thesis
    proof (cases "c = CHR ''(''")
      case True
      let ?tk = "takeWhile (\<lambda>x. x \<noteq> CHR '')'') cs"
      let ?dr = "dropWhile (\<lambda>x. x \<noteq> CHR '')'') cs"
      from "2.prems"(1) sp True have d: "?dr \<noteq> []"
        by (auto split: if_splits)
      from "2.prems"(1) sp True d
      have ok: "\<not> (split_on (\<lambda>x. x = CHR '' '') ?tk = []
                    \<or> \<not> list_all is_identifier (split_on (\<lambda>x. x = CHR '' '') ?tk))"
        by (auto split: if_splits)
      from "2.prems"(1) sp True d ok obtain gs' where
        r: "parse_side (tl ?dr) = Inr gs'" and gs: "gs = split_on (\<lambda>x. x = CHR '' '') ?tk # gs'"
        by (auto split: if_splits sum.splits)
      from "2.prems"(2) gs consider "g = split_on (\<lambda>x. x = CHR '' '') ?tk" | "g \<in> set gs'" by auto
      then show ?thesis
      proof cases
        case 1
        with "2.prems"(3) have "set a \<subseteq> set ?tk" by (auto dest: split_on_chars)
        then show ?thesis using set_takeWhileD [of _ "\<lambda>x. x \<noteq> CHR '')''" cs] by auto
      next
        case 2
        from "2.IH"(2) [OF sp True d ok r 2 "2.prems"(3)]
        have "set a \<subseteq> set (tl ?dr)" .
        moreover have "set (tl ?dr) \<subseteq> set cs"
          using set_dropWhileD [of _ "\<lambda>x. x \<noteq> CHR '')''" cs] list.set_sel(2) [OF d] by blast
        ultimately show ?thesis by auto
      qed
    next
      case par: False
      from "2.prems"(1) sp par have w: "is_word c" by (auto split: if_splits)
      from "2.prems"(1) sp par w have ok: "\<not> \<not> is_identifier (c # takeWhile is_word cs)"
        by (auto split: if_splits)
      from "2.prems"(1) sp par w ok obtain gs' where
        r: "parse_side (dropWhile is_word cs) = Inr gs'"
        and gs: "gs = [c # takeWhile is_word cs] # gs'"
        by (auto split: if_splits sum.splits)
      from "2.prems"(2) gs consider "g = [c # takeWhile is_word cs]" | "g \<in> set gs'" by auto
      then show ?thesis
      proof cases
        case 1
        with "2.prems"(3) have "a = c # takeWhile is_word cs" by simp
        then show ?thesis using set_takeWhileD [of _ is_word cs] by auto
      next
        case 2
        from "2.IH"(3) [OF sp par w ok r 2 "2.prems"(3)]
        have "set a \<subseteq> set (dropWhile is_word cs)" .
        then show ?thesis using set_dropWhileD [of _ is_word cs] by auto
      qed
    qed
  qed
qed

lemma parse_sp: "parse_side (CHR '' '' # t) = parse_side t"
  by simp

lemma parse_b:
  "parse_side (CHR ''b'' # CHR '' '' # t)
   = (case parse_side t of Inl e \<Rightarrow> Inl e | Inr gs \<Rightarrow> Inr ([''b''] # gs))"
  by (simp add: string_eval split: sum.splits)

lemma parse_hd:
  "parse_side (''(h d)'' @ t)
   = (case parse_side t of Inl e \<Rightarrow> Inl e | Inr gs \<Rightarrow> Inr ([''h'', ''d''] # gs))"
  by (simp add: string_eval split: sum.splits)

lemma parse_bh:
  "parse_side (''(b h)'' @ t)
   = (case parse_side t of Inl e \<Rightarrow> Inl e | Inr gs \<Rightarrow> Inr ([''b'', ''h''] # gs))"
  by (simp add: string_eval split: sum.splits)


subsection \<open>What a successful construction went through\<close>

lemma Rearrange_init_Inr:
  assumes "Rearrange_init p kw = Inr re"
  shows "\<exists>l r lg rg. split_arrow p = [l, r] \<and> parse_side l = Inr lg \<and> parse_side r = Inr rg
           \<and> distinct (concat lg) \<and> distinct (concat rg) \<and> set (concat lg) = set (concat rg)
           \<and> \<not> list_ex (\<lambda>g. 1 < length (filter (\<lambda>a. kw a = None) g)) lg
           \<and> re = \<lparr>left_groups = lg, right_groups = rg, axes_lengths = kw\<rparr>"
proof -
  from assms obtain l r where s: "split_arrow p = [l, r]"
    unfolding Rearrange_init_def by (simp split: list.splits)
  from assms s obtain lg where l: "parse_side l = Inr lg"
    unfolding Rearrange_init_def by (simp split: sum.splits)
  from assms s l obtain rg where r: "parse_side r = Inr rg"
    unfolding Rearrange_init_def by (simp split: sum.splits)
  from assms s l r have c: "\<not> (\<not> distinct (concat lg) \<or> \<not> distinct (concat rg)
                       \<or> set (concat lg) \<noteq> set (concat rg))"
    unfolding Rearrange_init_def by (simp split: if_splits)
  from assms s l r c have u: "\<not> list_ex (\<lambda>g. 1 < length (filter (\<lambda>a. kw a = None) g)) lg"
    unfolding Rearrange_init_def by (simp split: if_splits)
  from assms s l r c u have "re = \<lparr>left_groups = lg, right_groups = rg, axes_lengths = kw\<rparr>"
    unfolding Rearrange_init_def by simp
  with s l r c u show ?thesis by blast
qed

lemma Reshape_init_Inr:
  assumes "Reshape_init isz (Some eq) sh ds kw = Inr R"
  shows "\<exists>l r re dl rinv. split_arrow eq = [l, r] \<and> Rearrange_init eq kw = Inr re
           \<and> infer_dims (strip l) isz kw = Inr dl
           \<and> Rearrange_init (strip r @ '' -> '' @ strip l) dl = Inr rinv
           \<and> rearrange R = Some re \<and> rearrange_inv R = Some rinv
           \<and> shifts R = sh \<and> shifts_inv R = map_option (map uminus) sh
           \<and> dims R = (if sh = None then None else ds)"
proof -
  from assms obtain l r where s: "split_arrow eq = [l, r]"
    unfolding Reshape_init_def by (simp split: list.splits)
  from assms s obtain re where a: "Rearrange_init eq kw = Inr re"
    unfolding Reshape_init_def by (simp split: sum.splits)
  from assms s a obtain dl where b: "infer_dims (strip l) isz kw = Inr dl"
    unfolding Reshape_init_def by (simp split: sum.splits)
  from assms s a b obtain osz where c: "compute_size (strip r) dl = Inr osz"
    unfolding Reshape_init_def by (simp split: sum.splits)
  from assms s a b c obtain rinv where
    d: "Rearrange_init (strip r @ '' -> '' @ strip l) dl = Inr rinv"
    unfolding Reshape_init_def by (simp split: sum.splits)
  from assms s a b c d
  have "R = \<lparr>input_size = isz, rearrange = Some re, rearrange_inv = Some rinv,
              dim_lengths = dl, output_size = osz, shifts = sh,
              shifts_inv = map_option (map uminus) sh,
              dims = (if sh = None then None else ds)\<rparr>"
    unfolding Reshape_init_def by simp
  then have "rearrange R = Some re" "rearrange_inv R = Some rinv" "shifts R = sh"
    "shifts_inv R = map_option (map uminus) sh" "dims R = (if sh = None then None else ds)"
    by simp_all
  with s a b d show ?thesis by blast
qed

subsection \<open>The two sides of the built equations\<close>

lemma split_pattern:
  assumes "CHR ''-'' \<notin> set L" and "CHR ''-'' \<notin> set Rt"
  shows "split_arrow (L @ '' -> '' @ Rt) = [L @ '' '', '' '' @ Rt]"
proof -
  have e: "L @ '' -> '' @ Rt = (L @ '' '') @ ''->'' @ ('' '' @ Rt)" by simp
  have l: "CHR ''-'' \<notin> set (L @ '' '')" using assms(1) by simp
  have r: "CHR ''-'' \<notin> set ('' '' @ Rt)" using assms(2) by simp
  have "split_arrow ((L @ '' '') @ ''->'' @ ('' '' @ Rt)) = (L @ '' '') # split_arrow ('' '' @ Rt)"
    using l by (rule split_arrow_at)
  also have "split_arrow ('' '' @ Rt) = ['' '' @ Rt]"
    using r by (rule split_arrow_no_dash)
  finally show ?thesis unfolding e .
qed


lemma lstrip_keep: "\<not> is_space c \<Longrightarrow> lstrip (c # t) = c # t"
  by (simp add: lstrip_def)




subsection \<open>Inferred heads, and the equation of \<^verbatim>\<open>Tensorize\<close>\<close>





lemma tensorize_never:
  "Tensorize_init isz nh hdm gs ps sh \<noteq> Inr R"
proof
  assume a: "Tensorize_init isz nh hdm gs ps sh = Inr R"
  let ?sd = "length isz - 2"
  let ?eq = "left_pattern ?sd @ '' -> '' @ tensorize_right ?sd"
  from a obtain s d kw where "Reshape_init isz (Some ?eq) s d kw = Inr R"
    unfolding Tensorize_init_def Let_def by (auto split: if_splits)
  from Reshape_init_Inr [OF this] obtain re where "Rearrange_init ?eq kw = Inr re" by blast
  from Rearrange_init_Inr [OF this] obtain l r lg rg where
    s: "split_arrow ?eq = [l, r]" and l: "parse_side l = Inr lg" and r: "parse_side r = Inr rg"
    and e: "set (concat lg) = set (concat rg)" by blast
  from s split_pattern [OF left_pattern_no_dash tensorize_right_no_dash, of ?sd ?sd]
  have l': "l = left_pattern ?sd @ '' ''" and r': "r = '' '' @ tensorize_right ?sd" by simp_all
  define t where "t = drop 2 (left_pattern ?sd) @ '' ''"
  have "left_pattern ?sd @ '' '' = CHR ''b'' # CHR '' '' # t"
    by (simp add: left_pattern_def t_def)
  with l l' have "parse_side (CHR ''b'' # CHR '' '' # t) = Inr lg" by simp
  then obtain lgs where "lg = [''b''] # lgs"
    unfolding parse_b by (auto split: sum.splits)
  then have "''b'' \<in> set (concat lg)" by simp
  with e obtain g where "g \<in> set rg" and "''b'' \<in> set g" by auto
  from parse_names_chars [OF r this] have "CHR ''b'' \<in> set r" by simp
  with r' tensorize_right_no_b [of ?sd] show False by simp
qed



section \<open>Clamping of the size hints\<close>












lemma put_sizes_other_key:
  assumes "\<And>j. prefix @ str_nat j \<noteq> key"
  shows "put_sizes prefix vs m key = m key"
proof -
  have ne: "key \<noteq> prefix @ str_nat j" for j
    using assms[of j] by blast
  have "fold (\<lambda>jv acc. case snd jv of None \<Rightarrow> acc
                      | Some v \<Rightarrow> acc(prefix @ str_nat (fst jv) \<mapsto> max v 1))
             (enumerate k vs) (m :: dim_map) key = m key" for k
  proof (induction vs arbitrary: k m)
    case Nil
    show ?case by simp
  next
    case (Cons v vs)
    show ?case using Cons.IH ne by (cases v) simp_all
  qed
  then show ?thesis unfolding put_sizes_def .
qed

lemma dims_lengths_h: "dims_lengths sd (Some n) hdm gs ps ''h'' = Some (max n 1)"
  by (cases hdm) (simp_all add: dims_lengths_def put_sizes_other_key)

lemma dims_lengths_d: "dims_lengths sd nh (Some n) gs ps ''d'' = Some (max n 1)"
  by (cases nh) (simp_all add: dims_lengths_def put_sizes_other_key)













section \<open>The windowed classes\<close>

subsection \<open>\<^verbatim>\<open>forward\<close>\<close>

lemma forward_all_Inr:
  "forward_all ws x = Inr ys \<Longrightarrow>
     length ys = length ws \<and> (\<forall>j<length ws. forward (ws ! j) x = Inr (ys ! j))"
proof (induction ws arbitrary: ys)
  case Nil
  then show ?case by simp
next
  case (Cons w ws)
  from Cons.prems obtain y ys' where y: "forward w x = Inr y"
    and ys': "forward_all ws x = Inr ys'" and ys: "ys = y # ys'"
    by (auto split: sum.splits)
  from Cons.IH [OF ys'] have len: "length ys' = length ws"
    and nth: "\<forall>j<length ws. forward (ws ! j) x = Inr (ys' ! j)" by simp_all
  show ?case
  proof (intro conjI allI impI)
    show "length ys = length (w # ws)" using len ys by simp
  next
    fix j assume "j < length (w # ws)"
    then show "forward ((w # ws) ! j) x = Inr (ys ! j)"
      using y nth ys by (cases j) simp_all
  qed
qed

lemma sum_list_all_equal:
  "\<forall>u\<in>set ys. f u = (n::nat) \<Longrightarrow> sum_list (map f ys) = n * length ys"
  by (induction ys) simp_all

subsection \<open>The variants of \<^verbatim>\<open>SWMatricize\<close>\<close>

lemma dims_lengths_b: "dims_lengths sd nh hdm gs ps ''b'' = None"
  by (cases nh; cases hdm) (simp_all add: dims_lengths_def put_sizes_other_key)

lemma dims_lengths_h_none: "dims_lengths sd None hdm gs ps ''h'' = None"
  by (cases hdm) (simp_all add: dims_lengths_def put_sizes_other_key)

lemma matricize_groups:
  assumes "Matricize_init isz nh hdm gs ps sh = Inr R"
  shows "\<exists>re lgs rgs. rearrange R = Some re
           \<and> left_groups re = [''b''] # [''h'', ''d''] # lgs
           \<and> right_groups re = [''b'', ''h''] # rgs
           \<and> axes_lengths re = dims_lengths (length isz - 2) nh hdm gs ps"
proof -
  let ?sd = "length isz - 2"
  let ?eq = "left_pattern ?sd @ '' -> '' @ matricize_right ?sd"
  let ?kw = "dims_lengths ?sd nh hdm gs ps"
  from assms obtain s d where "Reshape_init isz (Some ?eq) s d ?kw = Inr R"
    unfolding Matricize_init_def Let_def by (auto split: if_splits)
  from Reshape_init_Inr [OF this] obtain re where
    a: "Rearrange_init ?eq ?kw = Inr re" and b: "rearrange R = Some re" by blast
  from Rearrange_init_Inr [OF a] obtain l r lg rg where
    s: "split_arrow ?eq = [l, r]" and l: "parse_side l = Inr lg" and r: "parse_side r = Inr rg"
    and re: "re = \<lparr>left_groups = lg, right_groups = rg, axes_lengths = ?kw\<rparr>" by blast
  from s split_pattern [OF left_pattern_no_dash matricize_right_no_dash, of ?sd ?sd]
  have l': "l = left_pattern ?sd @ '' ''" and r': "r = '' '' @ matricize_right ?sd" by simp_all
  define t where "t = drop 7 (left_pattern ?sd) @ '' ''"
  have "left_pattern ?sd @ '' '' = CHR ''b'' # CHR '' '' # (''(h d)'' @ t)"
    by (simp add: left_pattern_def t_def)
  with l l' have "parse_side (CHR ''b'' # CHR '' '' # (''(h d)'' @ t)) = Inr lg" by simp
  then obtain lgs where lg: "lg = [''b''] # [''h'', ''d''] # lgs"
    unfolding parse_b parse_hd by (auto split: sum.splits)
  define u where "u = drop 5 (matricize_right ?sd)"
  have "'' '' @ matricize_right ?sd = CHR '' '' # (''(b h)'' @ u)"
    by (simp add: matricize_right_def u_def)
  with r r' have "parse_side (CHR '' '' # (''(b h)'' @ u)) = Inr rg" by simp
  then obtain rgs where rg: "rg = [''b'', ''h''] # rgs"
    unfolding parse_sp parse_bh by (auto split: sum.splits)
  from b re lg rg show ?thesis by simp
qed

lemma roll_dims_shape: "roll_dims x ss ds = Inr x' \<Longrightarrow> shape x' = shape x"
proof (induction x ss ds rule: roll_dims.induct)
  case (1 x)
  then show ?case by simp
next
  case (2 x s ss d ds)
  from "2.prems" have c: "\<not> (d < - int (length (shape x)) \<or> int (length (shape x)) \<le> d)"
    by (auto split: if_splits)
  from "2.prems" c
  have "roll_dims (roll_dim x s (nat (d mod int (length (shape x))))) ss ds = Inr x'" by simp
  from "2.IH" [OF c this] show ?case by (simp add: roll_dim_def)
qed simp_all

lemma torch_roll_shape: "torch_roll x ss ds = Inr x' \<Longrightarrow> shape x' = shape x"
  unfolding torch_roll_def
  by (auto simp: roll_flat_def split: if_splits option.splits dest: roll_dims_shape)

lemma resolve_batch:
  assumes "kw ''b'' = None"
  shows "resolve_group kw [''b''] B = Inr [(''b'', B)]"
  using assms by (simp add: resolve_group_def)

lemma resolve_heads:
  assumes "resolve_group kw [''h'', ''d''] C = Inr al"
  shows "\<exists>D. al = [(''h'', case kw ''h'' of Some v \<Rightarrow> nat v
                                 | None \<Rightarrow> C div nat (the (kw ''d''))), (''d'', D)]"
proof (cases "kw ''h''")
  case None
  show ?thesis
  proof (cases "kw ''d''")
    case n: None
    with None assms show ?thesis by (simp add: resolve_group_def)
  next
    case (Some w)
    with None assms show ?thesis
      by (auto simp: resolve_group_def Let_def split: if_splits)
  qed
next
  case (Some v)
  show ?thesis
  proof (cases "kw ''d''")
    case None
    with Some assms show ?thesis
      by (auto simp: resolve_group_def Let_def split: if_splits)
  next
    case s: (Some w)
    with Some assms show ?thesis
      by (auto simp: resolve_group_def Let_def split: if_splits)
  qed
qed

lemma forward_layer:
  assumes "forward R x = Inr y" and "rearrange R = Some re"
  shows "\<exists>x'. shape x' = shape x \<and> Rearrange_apply re x' = Inr y"
proof (cases "shifts R")
  case None
  with assms show ?thesis by (auto simp: forward_def apply_layer_def)
next
  case (Some ss)
  with assms obtain x' where r: "torch_roll x ss (dims R) = Inr x'"
    and a: "Rearrange_apply re x' = Inr y"
    by (auto simp: forward_def apply_layer_def split: sum.splits)
  from torch_roll_shape [OF r] a show ?thesis by blast
qed

lemma matricize_heads_hint:
  assumes "Matricize_init isz nh hdm gs ps sh = Inr R"
  shows "(case dims_lengths sd nh hdm gs ps ''h'' of Some v \<Rightarrow> nat v
          | None \<Rightarrow> C div nat (the (dims_lengths sd nh hdm gs ps ''d'')))
         = (case nh of Some n \<Rightarrow> nat (max n 1) | None \<Rightarrow> C div nat (max (the hdm) 1))"
proof (cases nh)
  case (Some n)
  then show ?thesis by (simp add: dims_lengths_h)
next
  case None
  with assms obtain v where v: "hdm = Some v"
    unfolding Matricize_init_def by (cases hdm) (auto split: if_splits)
  from None v show ?thesis by (simp add: dims_lengths_h_none dims_lengths_d)
qed

lemma matricize_forward_batch:
  assumes "Matricize_init isz nh hdm gs ps sh = Inr R" and "forward R x = Inr y"
    and "shape x = B # C # rest"
  shows "shape y \<noteq> []
         \<and> hd (shape y) = B * (case nh of Some n \<Rightarrow> nat (max n 1)
                                | None \<Rightarrow> C div nat (max (the hdm) 1))"
proof -
  let ?kw = "dims_lengths (length isz - 2) nh hdm gs ps"
  from matricize_groups [OF assms(1)] obtain re lgs rgs where
    re: "rearrange R = Some re" and lg: "left_groups re = [''b''] # [''h'', ''d''] # lgs"
    and rg: "right_groups re = [''b'', ''h''] # rgs" and kw: "axes_lengths re = ?kw" by blast
  from forward_layer [OF assms(2) re] assms(3) obtain x' where
    sx: "shape x' = B # C # rest" and ap: "Rearrange_apply re x' = Inr y" by auto
  from ap obtain al where
    al: "resolve_groups ?kw ([''b''] # [''h'', ''d''] # lgs) (B # C # rest) = Inr al"
    and sy: "shape y = map (\<lambda>g. prod_list (map (axis_len al) g)) ([''b'', ''h''] # rgs)"
    unfolding Rearrange_apply_def lg rg kw sx by (auto simp: Let_def split: sum.splits)
  have b: "resolve_group ?kw [''b''] B = Inr [(''b'', B)]"
    by (rule resolve_batch) (rule dims_lengths_b)
  from al b obtain al2 als where
    h: "resolve_group ?kw [''h'', ''d''] C = Inr al2"
    and e: "al = [(''b'', B)] @ al2 @ als"
    by (auto split: sum.splits)
  from resolve_heads [OF h] obtain D where
    al2: "al2 = [(''h'', case ?kw ''h'' of Some v \<Rightarrow> nat v
                          | None \<Rightarrow> C div nat (the (?kw ''d''))), (''d'', D)]" by blast
  have "axis_len al ''b'' = B" unfolding e by (simp add: axis_len_def)
  moreover have "axis_len al ''h'' = (case ?kw ''h'' of Some v \<Rightarrow> nat v
                          | None \<Rightarrow> C div nat (the (?kw ''d'')))"
    unfolding e al2 by (simp add: axis_len_def)
  ultimately have "hd (shape y) = B * (case ?kw ''h'' of Some v \<Rightarrow> nat v
                          | None \<Rightarrow> C div nat (the (?kw ''d'')))"
    unfolding sy by simp
  then have "hd (shape y) = B * (case nh of Some n \<Rightarrow> nat (max n 1)
                                | None \<Rightarrow> C div nat (max (the hdm) 1))"
    by (simp only: matricize_heads_hint [OF assms(1)])
  moreover have "shape y \<noteq> []" unfolding sy by simp
  ultimately show ?thesis by blast
qed

lemma build_windows_mem:
  "build_windows mk ss = Inr ws \<Longrightarrow> w \<in> set ws \<Longrightarrow> \<exists>s. mk s = Inr w"
proof (induction ss arbitrary: ws)
  case Nil
  then show ?case by simp
next
  case (Cons s ss)
  from Cons.prems(1) obtain w' ws' where a: "mk s = Inr w'"
    and b: "build_windows mk ss = Inr ws'" and c: "ws = w' # ws'"
    by (auto split: sum.splits)
  from Cons.prems(2) c consider "w = w'" | "w \<in> set ws'" by auto
  then show ?case
  proof cases
    case 1
    with a show ?thesis by blast
  next
    case 2
    from Cons.IH [OF b this] show ?thesis .
  qed
qed

lemma SW_init_mem:
  assumes "SW_init variant isz nh hdm gs ps shs = Inr sw" and "w \<in> set (shifted_windows sw)"
  shows "\<exists>s. variant isz nh hdm (Some (Seq (to_ntuple (length isz - 2) gs)))
                 (Some (Seq (to_ntuple (length isz - 2) ps))) s = Inr w"
proof -
  let ?mk = "variant isz nh hdm (Some (Seq (to_ntuple (length isz - 2) gs)))
               (Some (Seq (to_ntuple (length isz - 2) ps)))"
  from assms(1) obtain ss ws where b: "build_windows ?mk ss = Inr ws"
    and sw: "shifted_windows sw = ws"
    unfolding SW_init_def Let_def by (auto split: sum.splits list.splits option.splits)
  from build_windows_mem [OF b] assms(2) sw show ?thesis by blast
qed

lemma SW_init_nonempty:
  assumes "SW_init variant isz nh hdm gs ps shs = Inr sw"
  shows "shifted_windows sw \<noteq> []"
  using assms unfolding SW_init_def Let_def
  by (auto split: sum.splits list.splits option.splits)

lemma SWTensorize_never: "SWTensorize_init isz nh hdm gs ps shs \<noteq> Inr sw"
proof
  assume a: "SWTensorize_init isz nh hdm gs ps shs = Inr sw"
  then have i: "SW_init Tensorize_init isz nh hdm gs ps shs = Inr sw"
    by (simp add: SWTensorize_init_def)
  from SW_init_nonempty [OF i] obtain w where "w \<in> set (shifted_windows sw)"
    by (cases "shifted_windows sw") auto
  from SW_init_mem [OF i this] tensorize_never show False by blast
qed

subsection \<open>The batch law of \<^verbatim>\<open>forward\<close>\<close>

text \<open>
  Claim C4, as the code has it. \<^verbatim>\<open>forward\<close> of \<^verbatim>\<open>SWMatricize\<close> and \<^verbatim>\<open>SWTensorize\<close> applies
  every variant to the same tensor, in the order of the variants, and concatenates the
  results along axis 0. Every variant merges batch and heads into its first axis, so for a
  tensor of batch size \<open>B\<close> with \<open>C\<close> channels and \<open>V\<close> variants the result has \<open>B * H * V\<close>
  rows, \<open>H\<close> being the number of heads: the supplied \<open>numHeads\<close> (at least 1), or
  \<open>C // headDim\<close> when only \<open>headDim\<close> is supplied.
\<close>

theorem SW_forward_concatenates:
  assumes "SWMatricize_init isz nh hdm gs ps shs = Inr sw
           \<or> SWTensorize_init isz nh hdm gs ps shs = Inr sw"
    and "shape x = B # C # rest"
    and "SW_forward sw x = Inr y"
  shows "\<exists>ys. length ys = length (shifted_windows sw)
           \<and> (\<forall>j<length ys. forward (shifted_windows sw ! j) x = Inr (ys ! j))
           \<and> data y = concat (map data ys)
           \<and> hd (shape y)
               = B * (case nh of Some n \<Rightarrow> nat (max n 1) | None \<Rightarrow> C div nat (max (the hdm) 1))
                   * length (shifted_windows sw)"
proof -
  let ?H = "case nh of Some n \<Rightarrow> nat (max n 1) | None \<Rightarrow> C div nat (max (the hdm) 1)"
  from assms(1) SWTensorize_never have "SWMatricize_init isz nh hdm gs ps shs = Inr sw" by blast
  then have init: "SW_init Matricize_init isz nh hdm gs ps shs = Inr sw"
    by (simp add: SWMatricize_init_def)
  from assms(3) obtain ys where ys: "forward_all (shifted_windows sw) x = Inr ys"
    and cat: "torch_cat ys = Inr y"
    by (auto simp: SW_forward_def split: sum.splits)
  from forward_all_Inr [OF ys] have len: "length ys = length (shifted_windows sw)"
    and nth: "\<forall>j<length ys. forward (shifted_windows sw ! j) x = Inr (ys ! j)" by simp_all
  from cat have d: "data y = concat (map data ys)"
    and s: "hd (shape y) = sum_list (map (\<lambda>u. hd (shape u)) ys)"
    by (auto simp: torch_cat_def split: list.splits if_splits)
  have "\<forall>u\<in>set ys. hd (shape u) = B * ?H"
  proof
    fix u assume "u \<in> set ys"
    then obtain j where j: "j < length ys" and u: "u = ys ! j"
      by (auto simp: in_set_conv_nth)
    from j len have "shifted_windows sw ! j \<in> set (shifted_windows sw)" by simp
    from SW_init_mem [OF init this] obtain sh where
      m: "Matricize_init isz nh hdm (Some (Seq (to_ntuple (length isz - 2) gs)))
            (Some (Seq (to_ntuple (length isz - 2) ps))) sh = Inr (shifted_windows sw ! j)"
      by blast
    from nth j u have "forward (shifted_windows sw ! j) x = Inr u" by simp
    from matricize_forward_batch [OF m this assms(2)] show "hd (shape u) = B * ?H" by simp
  qed
  from sum_list_all_equal [OF this] s len
  have "hd (shape y) = B * ?H * length (shifted_windows sw)" by simp
  with len nth d show ?thesis by blast
qed

theorem SW_forward_concatenates_witness:
  "SW_forward (projr (SWMatricize_init [None, Some 2, Some 2, Some 2] (Some 2) None None
                        (Some (Scalar 2)) None))
     \<lparr>shape = [1, 2, 2, 2], data = [1, 2, 3, 4, 5, 6, 7, 8 :: nat]\<rparr>
   = Inr \<lparr>shape = [4, 1, 1, 4], data = [1, 2, 3, 4, 5, 6, 7, 8, 4, 3, 2, 1, 8, 7, 6, 5]\<rparr>
   \<and> hd (shape \<lparr>shape = [4, 1, 1, 4],
                  data = [1, 2, 3, 4, 5, 6, 7, 8, 4, 3, 2, 1, 8, 7, 6, 5 :: nat]\<rparr>)
       = 1 * nat (max 2 1)
           * length (shifted_windows (projr (SWMatricize_init [None, Some 2, Some 2, Some 2]
                                               (Some 2) None None (Some (Scalar 2)) None)))"
proof -
  let ?init = "SWMatricize_init [None, Some 2, Some 2, Some 2] (Some 2) None None
                 (Some (Scalar 2)) None"
  let ?sw = "projr ?init"
  let ?x = "\<lparr>shape = [1, 2, 2, 2], data = [1, 2, 3, 4, 5, 6, 7, 8 :: nat]\<rparr>"
  let ?y = "\<lparr>shape = [4, 1, 1, 4],
             data = [1, 2, 3, 4, 5, 6, 7, 8, 4, 3, 2, 1, 8, 7, 6, 5 :: nat]\<rparr>"
  have c: "\<not> isl ?init" by code_simp
  then have i: "?init = Inr ?sw" by simp
  then have a1: "?init = Inr ?sw
                 \<or> SWTensorize_init [None, Some 2, Some 2, Some 2] (Some 2) None None
                      (Some (Scalar 2)) None = Inr ?sw" by (rule disjI1)
  have a2: "shape ?x = 1 # 2 # [2, 2]" by simp
  have h: "SW_forward ?sw ?x = Inr ?y" by code_simp
  from SW_forward_concatenates [OF a1 a2 h]
  have "hd (shape ?y) = 1 * nat (max 2 1) * length (shifted_windows ?sw)" by auto
  with h show ?thesis by (rule conjI)
qed

text \<open>
  The claim as the specification states it (output batch size exactly \<open>B * V\<close>) fails with
  two heads: \<^verbatim>\<open>SWMatricize\<close> for input size \<open>(None, 2, 2, 2)\<close> with two heads, patch size 2
  and the default shifts has \<open>V = 2\<close> variants, and a tensor of batch size \<open>B = 1\<close> gives
  a result of 4 rows.
\<close>

theorem SW_forward_batch_counts_heads:
  "length (shifted_windows (projr (SWMatricize_init [None, Some 2, Some 2, Some 2] (Some 2) None None
                (Some (Scalar 2)) None))) = 2
   \<and> map_sum id shape
        (SW_forward (projr (SWMatricize_init [None, Some 2, Some 2, Some 2] (Some 2) None None
                (Some (Scalar 2)) None))
           \<lparr>shape = [1, 2, 2, 2], data = [1, 2, 3, 4, 5, 6, 7, 8 :: nat]\<rparr>)
      = Inr [4, 1, 1, 4]"
  by code_simp

subsection \<open>Flat positions and multi-indices\<close>













subsection \<open>The loop of the windowed inverse\<close>








subsection \<open>The inverse of a variant\<close>











section \<open>\<^verbatim>\<open>cp\<close> and \<^verbatim>\<open>khatri_rao\<close>\<close>

subsection \<open>Multi-indices\<close>

lemma ravel_less: "valid_index s is \<Longrightarrow> ravel s is < prod_list s"
  unfolding valid_index_def
proof (induction "is" s rule: list_all2_induct)
  case Nil
  show ?case by simp
next
  case (Cons i "is" n ns)
  have "i * prod_list ns + ravel ns is < i * prod_list ns + prod_list ns"
    using Cons.IH by simp
  also have "\<dots> = (i + 1) * prod_list ns" by simp
  also have "\<dots> \<le> n * prod_list ns" using Cons.hyps(1) by (intro mult_le_mono1) simp
  finally show ?case by simp
qed

lemma unravel_ravel: "valid_index s is \<Longrightarrow> unravel s (ravel s is) = is"
proof (induction s arbitrary: "is")
  case Nil
  then show ?case by (simp add: valid_index_def)
next
  case (Cons n ns)
  from Cons.prems obtain i is' where eq: "is = i # is'" and i: "i < n"
    and v: "valid_index ns is'"
    by (cases "is") (auto simp: valid_index_def)
  from ravel_less [OF v] have r: "ravel ns is' < prod_list ns" .
  then have "(i * prod_list ns + ravel ns is') div prod_list ns = i"
    and "(i * prod_list ns + ravel ns is') mod prod_list ns = ravel ns is'"
    by simp_all
  with Cons.IH [OF v] show ?case using eq by simp
qed

lemma ravel_snoc:
  "length is = length es \<Longrightarrow> ravel (es @ [R]) (is @ [r]) = ravel es is * R + r"
proof (induction "is" es rule: list_induct2)
  case Nil
  show ?case by simp
next
  case (Cons i "is" n ns)
  then show ?case by (simp add: algebra_simps)
qed

lemma valid_index_snoc:
  "valid_index es is \<Longrightarrow> r < R \<Longrightarrow> valid_index (es @ [R]) (is @ [r])"
  by (simp add: valid_index_def list_all2_appendI)

lemma valid_index_Cons:
  "valid_index (n # ns) (i # is) \<longleftrightarrow> i < n \<and> valid_index ns is"
  by (simp add: valid_index_def)

lemma valid_index_length: "valid_index ns is \<Longrightarrow> length is = length ns"
  by (simp add: valid_index_def list_all2_lengthD)

subsection \<open>The contraction of the factor matrices\<close>

lemma leg_names:
  "''i'' @ str_nat m \<noteq> ''b''" "''i'' @ str_nat m \<noteq> ''r''"
  "''b'' \<noteq> ''i'' @ str_nat m" "''r'' \<noteq> ''i'' @ str_nat m"
  "(''i'' @ str_nat m = ''i'' @ str_nat n) = (m = n)"
  by (auto dest: str_nat_inj)

lemma legs_fold:
  "fold (\<lambda>(m, u) (args, legs).
           (args @ [(u, [''b'', ''i'' @ str_nat m, ''r''])], legs @ [''i'' @ str_nat m]))
        (enumerate n us) (args, legs)
   = (args @ map (\<lambda>(m, u). (u, [''b'', ''i'' @ str_nat m, ''r''])) (enumerate n us),
      legs @ map (\<lambda>(m, u). ''i'' @ str_nat m) (enumerate n us))"
  by (induction us arbitrary: n args legs) simp_all

lemma map_enumerate:
  "map (\<lambda>(m, u). f m u) (enumerate 0 us) = map (\<lambda>m. f m (us ! m)) [0..<length us]"
  by (rule nth_equalityI) (simp_all add: nth_enumerate_eq)

lemma legs_loop_eq:
  "legs_loop us =
     (map (\<lambda>m. (us ! m, [''b'', ''i'' @ str_nat m, ''r''])) [0..<length us],
      ''b'' # map (\<lambda>m. ''i'' @ str_nat m) [0..<length us])"
proof -
  have a: "map (\<lambda>(m, u). (u, [''b'', ''i'' @ str_nat m, ''r''])) (enumerate 0 us)
           = map (\<lambda>m. (us ! m, [''b'', ''i'' @ str_nat m, ''r''])) [0..<length us]"
    by (rule map_enumerate)
  have b: "map (\<lambda>(m, u). ''i'' @ str_nat m) (enumerate 0 us)
           = map (\<lambda>m. ''i'' @ str_nat m) [0..<length us]"
    by (rule map_enumerate)
  show ?thesis
    unfolding legs_loop_def legs_fold a b by simp
qed

lemma leg_extents_factors:
  assumes "\<forall>m<length us. shape (us ! m) = [B, es ! m, R]"
  shows "leg_extents (map (\<lambda>m. (us ! m, [''b'', ''i'' @ str_nat m, ''r''])) [0..<length us])
         = concat (map (\<lambda>m. [(''b'', B), (''i'' @ str_nat m, es ! m), (''r'', R)])
                       [0..<length us])"
proof -
  have "map ((\<lambda>(t, ls). zip ls (shape t)) \<circ> (\<lambda>m. (us ! m, [''b'', ''i'' @ str_nat m, ''r''])))
            [0..<length us]
        = map (\<lambda>m. [(''b'', B), (''i'' @ str_nat m, es ! m), (''r'', R)]) [0..<length us]"
    using assms by (intro map_cong) simp_all
  then show ?thesis by (simp only: leg_extents_def map_map)
qed

lemma remdups_replicate_pos: "0 < n \<Longrightarrow> remdups (replicate n x) = [x]"
  by (induction n) auto

lemma map_of_functional:
  assumes "(a, n) \<in> set al" and "\<And>n'. (a, n') \<in> set al \<Longrightarrow> n' = n"
  shows "map_of al a = Some n"
proof -
  from weak_map_of_SomeI [OF assms(1)] obtain n' where n': "map_of al a = Some n'" by blast
  from map_of_SomeD [OF n'] assms(2) have "n' = n" by blast
  with n' show ?thesis by simp
qed

lemma al_mem:
  "(a, n) \<in> set (concat (map (\<lambda>m. [(''b'', B), (''i'' @ str_nat m, es ! m), (''r'', R)]) [0..<M]))
   \<longleftrightarrow> (0 < M \<and> (a = ''b'' \<and> n = B \<or> a = ''r'' \<and> n = R))
        \<or> (\<exists>m<M. a = ''i'' @ str_nat m \<and> n = es ! m)"
  by auto

lemma al_b:
  "0 < M \<Longrightarrow> map_of (concat (map (\<lambda>m. [(''b'', B), (''i'' @ str_nat m, es ! m), (''r'', R)])
                            [0..<M])) ''b'' = Some B"
  by (rule map_of_functional) (simp_all only: al_mem, simp_all)

lemma al_r:
  "0 < M \<Longrightarrow> map_of (concat (map (\<lambda>m. [(''b'', B), (''i'' @ str_nat m, es ! m), (''r'', R)])
                            [0..<M])) ''r'' = Some R"
  by (rule map_of_functional) (simp_all only: al_mem, simp_all)

lemma al_i:
  "m < M \<Longrightarrow> map_of (concat (map (\<lambda>m. [(''b'', B), (''i'' @ str_nat m, es ! m), (''r'', R)])
                            [0..<M])) (''i'' @ str_nat m) = Some (es ! m)"
  by (rule map_of_functional) (simp_all only: al_mem, auto dest: str_nat_inj)

lemma al_consistent:
  "\<not> list_ex (\<lambda>(a, n). map_of (concat (map (\<lambda>m. [(''b'', B), (''i'' @ str_nat m, es ! m), (''r'', R)])
                            [0..<M])) a \<noteq> Some n)
        (concat (map (\<lambda>m. [(''b'', B), (''i'' @ str_nat m, es ! m), (''r'', R)]) [0..<M]))"
proof -
  let ?al = "concat (map (\<lambda>m. [(''b'', B), (''i'' @ str_nat m, es ! m), (''r'', R)]) [0..<M])"
  have "map_of ?al a = Some n" if "(a, n) \<in> set ?al" for a n
  proof -
    from that [unfolded al_mem]
    consider "0 < M" "a = ''b''" "n = B" | "0 < M" "a = ''r''" "n = R"
      | m where "m < M" "a = ''i'' @ str_nat m" "n = es ! m" by blast
    then show ?thesis
    proof cases
      case 1 then show ?thesis using al_b [of M B es R] by simp
    next
      case 2 then show ?thesis using al_r [of M B es R] by simp
    next
      case 3 then show ?thesis using al_i [of m M B es R] by simp
    qed
  qed
  then show ?thesis unfolding list_ex_iff by blast
qed

lemma al_names:
  "map fst (concat (map (\<lambda>m. [(''b'', B), (''i'' @ str_nat m, es ! m), (''r'', R)]) [0..<M]))
   = concat (map (\<lambda>m. [''b'', ''i'' @ str_nat m, ''r'']) [0..<M])"
  by (simp add: map_concat comp_def)

lemma summed_cp:
  assumes "0 < M"
  shows "filter (\<lambda>a. a \<notin> set (''b'' # map (\<lambda>m. ''i'' @ str_nat m) [0..<M]))
           (remdups (concat (map (\<lambda>m. [''b'', ''i'' @ str_nat m, ''r'']) [0..<M]))) = [''r'']"
proof -
  let ?P = "\<lambda>a. a \<notin> set (''b'' # map (\<lambda>m. ''i'' @ str_nat m) [0..<M])"
  have r: "?P ''r''" by (auto simp: leg_names)
  have "map (\<lambda>m. filter ?P [''b'', ''i'' @ str_nat m, ''r'']) [0..<M] = map (\<lambda>m. [''r'']) [0..<M]"
    using r by (intro map_cong) auto
  then have "filter ?P (concat (map (\<lambda>m. [''b'', ''i'' @ str_nat m, ''r'']) [0..<M]))
             = concat (map (\<lambda>m. [''r'']) [0..<M])"
    by (simp only: filter_concat map_map comp_def)
  also have "\<dots> = replicate M ''r''"
    by (induction M) (simp_all add: replicate_append_same)
  finally have "filter ?P (concat (map (\<lambda>m. [''b'', ''i'' @ str_nat m, ''r'']) [0..<M]))
                = replicate M ''r''" .
  then have "filter ?P (remdups (concat (map (\<lambda>m. [''b'', ''i'' @ str_nat m, ''r'']) [0..<M])))
             = remdups (replicate M ''r'')"
    by (simp only: remdups_filter [symmetric])
  with assms show ?thesis by (simp add: remdups_replicate_pos)
qed

lemma summed_khatri_rao:
  "filter (\<lambda>a. a \<notin> set ((''b'' # map (\<lambda>m. ''i'' @ str_nat m) [0..<M]) @ [''r'']))
     (remdups (concat (map (\<lambda>m. [''b'', ''i'' @ str_nat m, ''r'']) [0..<M]))) = []"
  by (auto simp: filter_empty_conv)

lemma distinct_legs: "distinct (''b'' # map (\<lambda>m. ''i'' @ str_nat m) [0..<M] @ [''r''])"
proof -
  have "inj_on (\<lambda>m. ''i'' @ str_nat m) (set [0..<M])"
    by (rule inj_onI) (auto dest: str_nat_inj)
  then have "distinct (map (\<lambda>m. ''i'' @ str_nat m) [0..<M])"
    by (simp add: distinct_map)
  then show ?thesis by (auto simp: leg_names)
qed

lemma leg_index_factors:
  assumes "length idx = M"
  shows "leg_index (''b'' # map (\<lambda>m. ''i'' @ str_nat m) [0..<M] @ [''r'']) (b # idx @ [j]) ''b'' = b"
    and "m < M \<Longrightarrow> leg_index (''b'' # map (\<lambda>m. ''i'' @ str_nat m) [0..<M] @ [''r''])
                        (b # idx @ [j]) (''i'' @ str_nat m) = idx ! m"
    and "leg_index (''b'' # map (\<lambda>m. ''i'' @ str_nat m) [0..<M] @ [''r'']) (b # idx @ [j]) ''r'' = j"
proof -
  let ?K = "''b'' # map (\<lambda>m. ''i'' @ str_nat m) [0..<M] @ [''r'']"
  let ?V = "b # idx @ [j]"
  have len: "length ?K = length ?V" using assms by simp
  have d: "distinct ?K" by (rule distinct_legs)
  have nth: "map_of (zip ?K ?V) (?K ! n) = Some (?V ! n)" if "n < length ?V" for n
    using len d that by (rule map_of_zip_nth)
  from nth [of 0] show "leg_index ?K ?V ''b'' = b" by (simp add: leg_index_def)
  {
    assume m: "m < M"
    then have "?K ! Suc m = ''i'' @ str_nat m" by (simp add: nth_append)
    moreover have "?V ! Suc m = idx ! m" using m assms by (simp add: nth_append)
    moreover have "Suc m < length ?V" using m assms by simp
    ultimately have "map_of (zip ?K ?V) (''i'' @ str_nat m) = Some (idx ! m)"
      using nth [of "Suc m"] by simp
    then show "leg_index ?K ?V (''i'' @ str_nat m) = idx ! m" by (simp add: leg_index_def)
  }
  have "?K ! Suc M = ''r''" by (simp add: nth_append)
  moreover have "?V ! Suc M = j" using assms by (simp add: nth_append)
  moreover have "Suc M < length ?V" using assms by simp
  ultimately have "map_of (zip ?K ?V) ''r'' = Some j"
    using nth [of "Suc M"] by simp
  then show "leg_index ?K ?V ''r'' = j" by (simp add: leg_index_def)
qed

lemma factor_product:
  assumes "\<forall>m<length us. shape (us ! m) = [B, es ! m, R]" and "length idx = length us"
  shows "prod_list (map (\<lambda>(t, ls). data t ! ravel (shape t)
                          (map (leg_index (''b'' # map (\<lambda>m. ''i'' @ str_nat m) [0..<length us] @ [''r''])
                                  (b # idx @ [j])) ls))
                        (map (\<lambda>m. (us ! m, [''b'', ''i'' @ str_nat m, ''r''])) [0..<length us]))
         = prod_list (map (\<lambda>m. data (us ! m) ! ravel [B, es ! m, R] [b, idx ! m, j])
                          [0..<length us])"
proof -
  have "map ((\<lambda>(t, ls). data t ! ravel (shape t)
                          (map (leg_index (''b'' # map (\<lambda>m. ''i'' @ str_nat m) [0..<length us] @ [''r''])
                                  (b # idx @ [j])) ls))
             \<circ> (\<lambda>m. (us ! m, [''b'', ''i'' @ str_nat m, ''r''])))
            [0..<length us]
        = map (\<lambda>m. data (us ! m) ! ravel [B, es ! m, R] [b, idx ! m, j]) [0..<length us]"
  proof (rule map_cong [OF refl])
    fix m assume "m \<in> set [0..<length us]"
    then have m: "m < length us" by simp
    with assms(1) have sh: "shape (us ! m) = [B, es ! m, R]" by simp
    show "((\<lambda>(t, ls). data t ! ravel (shape t)
                          (map (leg_index (''b'' # map (\<lambda>m. ''i'' @ str_nat m) [0..<length us] @ [''r''])
                                  (b # idx @ [j])) ls))
             \<circ> (\<lambda>m. (us ! m, [''b'', ''i'' @ str_nat m, ''r'']))) m
          = data (us ! m) ! ravel [B, es ! m, R] [b, idx ! m, j]"
      using leg_index_factors(1) [OF assms(2), where b = b and j = j]
        leg_index_factors(2) [OF assms(2) m, where b = b and j = j]
        leg_index_factors(3) [OF assms(2), where b = b and j = j]
      by (simp only: comp_apply prod.case sh list.map)
  qed
  then show ?thesis by (simp only: map_map)
qed

lemma contract_value:
  assumes "ops \<noteq> []"
    and "\<not> list_ex (\<lambda>(t, ls). length ls \<noteq> length (shape t)) ops"
    and "\<not> list_ex (\<lambda>(a, n). map_of (leg_extents ops) a \<noteq> Some n) (leg_extents ops)"
    and "distinct out_legs"
    and "\<not> list_ex (\<lambda>a. map_of (leg_extents ops) a = None) out_legs"
    and "filter (\<lambda>a. a \<notin> set out_legs) (remdups (map fst (leg_extents ops))) = summed"
    and "map (axis_len (leg_extents ops)) out_legs = osh"
    and "map (axis_len (leg_extents ops)) summed = ssh"
  shows "contract ops out_legs =
           Inr \<lparr>shape = osh,
                data = map (\<lambda>k. sum_list (map (\<lambda>j. prod_list (map (\<lambda>(t, ls).
                                   data t ! ravel (shape t)
                                     (map (leg_index (out_legs @ summed)
                                             (unravel osh k @ unravel ssh j)) ls)) ops))
                                 [0..<prod_list ssh]))
                           [0..<prod_list osh]\<rparr>"
  unfolding contract_def Let_def assms(6) assms(7) assms(8)
  using assms(1-5) by simp

lemma factor_checks:
  assumes "us \<noteq> []" and "\<forall>m<length us. shape (us ! m) = [B, es ! m, R]"
    and "length es = length us"
    and ops_def: "ops = map (\<lambda>m. (us ! m, [''b'', ''i'' @ str_nat m, ''r''])) [0..<length us]"
  shows "ops \<noteq> []"
    and "\<not> list_ex (\<lambda>(t, ls). length ls \<noteq> length (shape t)) ops"
    and "\<not> list_ex (\<lambda>(a, n). map_of (leg_extents ops) a \<noteq> Some n) (leg_extents ops)"
    and "axis_len (leg_extents ops) ''b'' = B"
    and "axis_len (leg_extents ops) ''r'' = R"
    and "map (axis_len (leg_extents ops)) (map (\<lambda>m. ''i'' @ str_nat m) [0..<length us]) = es"
    and "\<not> list_ex (\<lambda>a. map_of (leg_extents ops) a = None)
             (''b'' # map (\<lambda>m. ''i'' @ str_nat m) [0..<length us] @ [''r''])"
    and "map fst (leg_extents ops)
           = concat (map (\<lambda>m. [''b'', ''i'' @ str_nat m, ''r'']) [0..<length us])"
proof -
  let ?M = "length us"
  have M: "0 < ?M" using assms(1) by simp
  have al: "leg_extents ops
            = concat (map (\<lambda>m. [(''b'', B), (''i'' @ str_nat m, es ! m), (''r'', R)]) [0..<?M])"
    unfolding ops_def by (rule leg_extents_factors [OF assms(2)])
  show "ops \<noteq> []" using M by (simp add: ops_def)
  show "\<not> list_ex (\<lambda>(t, ls). length ls \<noteq> length (shape t)) ops"
    using assms(2) by (auto simp: list_ex_iff ops_def)
  show "\<not> list_ex (\<lambda>(a, n). map_of (leg_extents ops) a \<noteq> Some n) (leg_extents ops)"
    unfolding al by (rule al_consistent)
  show "axis_len (leg_extents ops) ''b'' = B"
    unfolding al axis_len_def using al_b [OF M, of B es R] by simp
  show "axis_len (leg_extents ops) ''r'' = R"
    unfolding al axis_len_def using al_r [OF M, of B es R] by simp
  have i: "axis_len (leg_extents ops) (''i'' @ str_nat m) = es ! m" if "m < ?M" for m
    unfolding al axis_len_def using al_i [OF that, of B es R] by simp
  have "map (axis_len (leg_extents ops) \<circ> (\<lambda>m. ''i'' @ str_nat m)) [0..<?M]
        = map (\<lambda>m. es ! m) [0..<?M]"
    using i by (intro map_cong [OF refl]) simp
  also have "\<dots> = es" using assms(3) by (metis map_nth)
  finally show "map (axis_len (leg_extents ops)) (map (\<lambda>m. ''i'' @ str_nat m) [0..<?M]) = es"
    by (simp only: map_map)
  show "\<not> list_ex (\<lambda>a. map_of (leg_extents ops) a = None)
             (''b'' # map (\<lambda>m. ''i'' @ str_nat m) [0..<?M] @ [''r''])"
    unfolding al list_ex_iff
    using al_b [OF M, of B es R] al_r [OF M, of B es R] al_i [of _ ?M B es R] by auto
  show "map fst (leg_extents ops)
           = concat (map (\<lambda>m. [''b'', ''i'' @ str_nat m, ''r'']) [0..<?M])"
    unfolding al by (rule al_names)
qed

lemma cp_value:
  assumes "us \<noteq> []" and "\<forall>m<length us. shape (us ! m) = [B, es ! m, R]"
    and "length es = length us"
  shows "cp us =
           Inr \<lparr>shape = B # es,
                data = map (\<lambda>k. sum_list (map (\<lambda>j. prod_list (map (\<lambda>(t, ls).
                                   data t ! ravel (shape t)
                                     (map (leg_index ((''b'' # map (\<lambda>m. ''i'' @ str_nat m) [0..<length us])
                                                      @ [''r''])
                                             (unravel (B # es) k @ unravel [R] j)) ls))
                                   (map (\<lambda>m. (us ! m, [''b'', ''i'' @ str_nat m, ''r'']))
                                        [0..<length us])))
                                 [0..<prod_list [R]]))
                           [0..<prod_list (B # es)]\<rparr>"
proof -
  let ?ops = "map (\<lambda>m. (us ! m, [''b'', ''i'' @ str_nat m, ''r''])) [0..<length us]"
  let ?legs = "''b'' # map (\<lambda>m. ''i'' @ str_nat m) [0..<length us]"
  note f = factor_checks [OF assms refl]
  have M: "0 < length us" using assms(1) by simp
  have d: "distinct ?legs" using distinct_legs [of "length us"] by simp
  have n: "\<not> list_ex (\<lambda>a. map_of (leg_extents ?ops) a = None) ?legs"
    using f(7) by (simp add: list_ex_iff)
  have s: "filter (\<lambda>a. a \<notin> set ?legs) (remdups (map fst (leg_extents ?ops))) = [''r'']"
    unfolding f(8) by (rule summed_cp [OF M])
  have o: "map (axis_len (leg_extents ?ops)) ?legs = B # es"
    using f(4) f(6) by (simp only: list.map)
  have ss: "map (axis_len (leg_extents ?ops)) [''r''] = [R]"
    using f(5) by (simp only: list.map)
  show ?thesis
    unfolding cp_def legs_loop_eq prod.case
    by (rule contract_value [OF f(1) f(2) f(3) d n s o ss])
qed

lemma khatri_rao_value:
  assumes "us \<noteq> []" and "\<forall>m<length us. shape (us ! m) = [B, es ! m, R]"
    and "length es = length us"
  shows "khatri_rao us =
           Inr \<lparr>shape = [B, prod_list es, R],
                data = map (\<lambda>k. sum_list (map (\<lambda>j. prod_list (map (\<lambda>(t, ls).
                                   data t ! ravel (shape t)
                                     (map (leg_index ((''b'' # map (\<lambda>m. ''i'' @ str_nat m) [0..<length us]
                                                       @ [''r'']) @ [])
                                             (unravel (B # es @ [R]) k @ unravel [] j)) ls))
                                   (map (\<lambda>m. (us ! m, [''b'', ''i'' @ str_nat m, ''r'']))
                                        [0..<length us])))
                                 [0..<prod_list []]))
                           [0..<prod_list (B # es @ [R])]\<rparr>"
proof -
  let ?ops = "map (\<lambda>m. (us ! m, [''b'', ''i'' @ str_nat m, ''r''])) [0..<length us]"
  let ?legs = "''b'' # map (\<lambda>m. ''i'' @ str_nat m) [0..<length us] @ [''r'']"
  note f = factor_checks [OF assms refl]
  have d: "distinct ?legs" by (rule distinct_legs)
  have s: "filter (\<lambda>a. a \<notin> set ?legs) (remdups (map fst (leg_extents ?ops))) = []"
    unfolding f(8) using summed_khatri_rao [of "length us"] by simp
  have o: "map (axis_len (leg_extents ?ops)) ?legs = B # es @ [R]"
    using f(4) f(5) f(6) by (simp only: list.map map_append)
  have ss: "map (axis_len (leg_extents ?ops)) [] = []" by simp
  have c: "contract ?ops ?legs =
           Inr \<lparr>shape = B # es @ [R],
                data = map (\<lambda>k. sum_list (map (\<lambda>j. prod_list (map (\<lambda>(t, ls).
                                   data t ! ravel (shape t)
                                     (map (leg_index (?legs @ [])
                                             (unravel (B # es @ [R]) k @ unravel [] j)) ls))
                                   ?ops))
                                 [0..<prod_list []]))
                           [0..<prod_list (B # es @ [R])]\<rparr>"
    by (rule contract_value [OF f(1) f(2) f(3) d f(7) s o ss])
  have e: "(''b'' # map (\<lambda>m. ''i'' @ str_nat m) [0..<length us]) @ [''r''] = ?legs" by simp
  have len: "\<not> length (B # es @ [R]) < 2" "length (B # es @ [R]) \<noteq> 2"
    using assms(1,3) by simp_all
  show ?thesis
    unfolding khatri_rao_def legs_loop_eq prod.case e c sum.case flatten_inner_def
    using len by (simp del: upt_Suc prod_list.Cons prod_list.Nil unravel.simps)
qed

lemma cp_entry:
  assumes "us \<noteq> []" and "\<forall>m<length us. shape (us ! m) = [B, es ! m, R]"
    and "length es = length us" and "cp us = Inr c"
    and "b < B" and "valid_index es idx"
  shows "data c ! ravel (B # es) (b # idx)
         = sum_list (map (\<lambda>r. prod_list (map (\<lambda>m. data (us ! m) ! ravel [B, es ! m, R] [b, idx ! m, r])
                                            [0..<length us]))
                         [0..<R])"
proof -
  let ?k = "ravel (B # es) (b # idx)"
  let ?F = "\<lambda>k. sum_list (map (\<lambda>j. prod_list (map (\<lambda>(t, ls).
                                   data t ! ravel (shape t)
                                     (map (leg_index ((''b'' # map (\<lambda>m. ''i'' @ str_nat m) [0..<length us])
                                                      @ [''r''])
                                             (unravel (B # es) k @ unravel [R] j)) ls))
                                   (map (\<lambda>m. (us ! m, [''b'', ''i'' @ str_nat m, ''r'']))
                                        [0..<length us])))
                                 [0..<prod_list [R]])"
  have v: "valid_index (B # es) (b # idx)"
    using assms(5,6) by (simp add: valid_index_Cons)
  have k: "?k < prod_list (B # es)" using v by (rule ravel_less)
  have u: "unravel (B # es) ?k = b # idx" using v by (rule unravel_ravel)
  have li: "length idx = length us"
    using valid_index_length [OF assms(6)] assms(3) by simp
  from cp_value [OF assms(1-3)] assms(4)
  have "c = \<lparr>shape = B # es, data = map ?F [0..<prod_list (B # es)]\<rparr>" by simp
  then have "data c ! ?k = map ?F [0..<prod_list (B # es)] ! ?k" by simp
  also have "\<dots> = ?F ?k" using k by (simp only: nth_map_upt diff_zero add_0)
  also have "\<dots> = sum_list (map (\<lambda>j. prod_list (map (\<lambda>m. data (us ! m)
                                   ! ravel [B, es ! m, R] [b, idx ! m, j]) [0..<length us]))
                             [0..<R])"
  proof -
    have "map (\<lambda>j. prod_list (map (\<lambda>(t, ls).
                                   data t ! ravel (shape t)
                                     (map (leg_index ((''b'' # map (\<lambda>m. ''i'' @ str_nat m) [0..<length us])
                                                      @ [''r''])
                                             (unravel (B # es) ?k @ unravel [R] j)) ls))
                                   (map (\<lambda>m. (us ! m, [''b'', ''i'' @ str_nat m, ''r'']))
                                        [0..<length us])))
              [0..<prod_list [R]]
          = map (\<lambda>j. prod_list (map (\<lambda>m. data (us ! m)
                                   ! ravel [B, es ! m, R] [b, idx ! m, j]) [0..<length us]))
                [0..<R]"
    proof (rule map_cong)
      show "[0..<prod_list [R]] = [0..<R]" by simp
    next
      fix j assume "j \<in> set [0..<R]"
      have a: "unravel (B # es) ?k @ unravel [R] j = b # idx @ [j]" by (simp only: u) simp
      have e: "(''b'' # map (\<lambda>m. ''i'' @ str_nat m) [0..<length us]) @ [''r'']
               = ''b'' # map (\<lambda>m. ''i'' @ str_nat m) [0..<length us] @ [''r'']" by simp
      show "prod_list (map (\<lambda>(t, ls).
                                   data t ! ravel (shape t)
                                     (map (leg_index ((''b'' # map (\<lambda>m. ''i'' @ str_nat m) [0..<length us])
                                                      @ [''r''])
                                             (unravel (B # es) ?k @ unravel [R] j)) ls))
                                   (map (\<lambda>m. (us ! m, [''b'', ''i'' @ str_nat m, ''r'']))
                                        [0..<length us]))
            = prod_list (map (\<lambda>m. data (us ! m)
                                   ! ravel [B, es ! m, R] [b, idx ! m, j]) [0..<length us])"
        unfolding a e by (rule factor_product [OF assms(2) li])
    qed
    then show ?thesis by (rule arg_cong)
  qed
  finally show ?thesis .
qed

lemma khatri_rao_entry:
  assumes "us \<noteq> []" and "\<forall>m<length us. shape (us ! m) = [B, es ! m, R]"
    and "length es = length us" and "khatri_rao us = Inr kr"
    and "b < B" and "valid_index es idx" and "r < R"
  shows "data kr ! ravel [B, prod_list es, R] [b, ravel es idx, r]
         = prod_list (map (\<lambda>m. data (us ! m) ! ravel [B, es ! m, R] [b, idx ! m, r])
                          [0..<length us])"
proof -
  let ?sh = "B # es @ [R]"
  let ?k = "ravel ?sh (b # idx @ [r])"
  let ?G = "\<lambda>k. sum_list (map (\<lambda>j. prod_list (map (\<lambda>(t, ls).
                                   data t ! ravel (shape t)
                                     (map (leg_index ((''b'' # map (\<lambda>m. ''i'' @ str_nat m) [0..<length us]
                                                       @ [''r'']) @ [])
                                             (unravel (B # es @ [R]) k @ unravel [] j)) ls))
                                   (map (\<lambda>m. (us ! m, [''b'', ''i'' @ str_nat m, ''r'']))
                                        [0..<length us])))
                                 [0..<prod_list []])"
  have li: "length idx = length es" using assms(6) by (rule valid_index_length)
  have v: "valid_index ?sh (b # idx @ [r])"
    using assms(5) valid_index_snoc [OF assms(6,7)] by (simp add: valid_index_Cons)
  have k: "?k < prod_list ?sh" using v by (rule ravel_less)
  have u: "unravel ?sh ?k = b # idx @ [r]" using v by (rule unravel_ravel)
  have pos: "ravel [B, prod_list es, R] [b, ravel es idx, r] = ?k"
    using ravel_snoc [OF li, of R r] by (simp add: algebra_simps)
  from khatri_rao_value [OF assms(1-3)] assms(4)
  have "kr = \<lparr>shape = [B, prod_list es, R], data = map ?G [0..<prod_list ?sh]\<rparr>" by simp
  then have "data kr ! ravel [B, prod_list es, R] [b, ravel es idx, r]
             = map ?G [0..<prod_list ?sh] ! ?k" by (simp only: pos) simp
  also have "\<dots> = ?G ?k" using k by (simp only: nth_map_upt diff_zero add_0)
  also have "\<dots> = prod_list (map (\<lambda>(t, ls).
                                   data t ! ravel (shape t)
                                     (map (leg_index (''b'' # map (\<lambda>m. ''i'' @ str_nat m) [0..<length us]
                                                       @ [''r''])
                                             (b # idx @ [r])) ls))
                                   (map (\<lambda>m. (us ! m, [''b'', ''i'' @ str_nat m, ''r'']))
                                        [0..<length us]))"
    by (simp only: u) simp
  also have "\<dots> = prod_list (map (\<lambda>m. data (us ! m) ! ravel [B, es ! m, R] [b, idx ! m, r])
                          [0..<length us])"
    using li assms(3) by (intro factor_product [OF assms(2)]) simp
  finally show ?thesis .
qed

lemma cp_shape:
  assumes "us \<noteq> []" and "\<forall>m<length us. shape (us ! m) = [B, es ! m, R]"
    and "length es = length us"
  shows "\<exists>c. cp us = Inr c \<and> shape c = B # es"
  by (simp only: cp_value [OF assms]) simp

lemma khatri_rao_shape:
  assumes "us \<noteq> []" and "\<forall>m<length us. shape (us ! m) = [B, es ! m, R]"
    and "length es = length us"
  shows "\<exists>kr. khatri_rao us = Inr kr \<and> shape kr = [B, prod_list es, R]"
  by (simp only: khatri_rao_value [OF assms]) simp

lemma length_three: "length xs = 3 \<Longrightarrow> xs = [xs ! 0, xs ! 1, xs ! 2]"
  by (cases xs; cases "tl xs"; cases "tl (tl xs)") auto

lemma cp_khatri_rao_entries:
  assumes "us \<noteq> []"
    and sh: "\<forall>m<length us. shape (us ! m) = [B, es ! m, R]"
    and len: "length es = length us"
  shows "\<exists>c kr. cp us = Inr c \<and> khatri_rao us = Inr kr
           \<and> shape c = B # es
           \<and> shape kr = [B, prod_list es, R]
           \<and> (\<forall>b idx. b < B \<and> valid_index es idx \<longrightarrow>
                 data c ! ravel (shape c) (b # idx)
                   = sum_list (map (\<lambda>r. prod_list (map (\<lambda>m. data (us ! m)
                                                       ! ravel (shape (us ! m)) [b, idx ! m, r])
                                                    [0..<length us]))
                                   [0..<R])
               \<and> data c ! ravel (shape c) (b # idx)
                   = sum_list (map (\<lambda>r. data kr ! ravel (shape kr)
                                             [b, ravel es idx, r])
                                   [0..<R]))"
proof -
  from cp_shape [OF assms(1) sh len] obtain c where c: "cp us = Inr c" and sc: "shape c = B # es"
    by blast
  from khatri_rao_shape [OF assms(1) sh len] obtain kr where kr: "khatri_rao us = Inr kr"
    and sk: "shape kr = [B, prod_list es, R]" by blast
  have ent: "data c ! ravel (shape c) (b # idx)
                   = sum_list (map (\<lambda>r. prod_list (map (\<lambda>m. data (us ! m)
                                                       ! ravel (shape (us ! m)) [b, idx ! m, r])
                                                    [0..<length us]))
                                   [0..<R])
               \<and> data c ! ravel (shape c) (b # idx)
                   = sum_list (map (\<lambda>r. data kr ! ravel (shape kr) [b, ravel es idx, r]) [0..<R])"
    if b: "b < B" and v: "valid_index es idx" for b idx
  proof -
    have p: "prod_list (map (\<lambda>m. data (us ! m) ! ravel (shape (us ! m)) [b, idx ! m, r]) [0..<length us])
             = prod_list (map (\<lambda>m. data (us ! m) ! ravel [B, es ! m, R] [b, idx ! m, r]) [0..<length us])"
      for r
      by (rule arg_cong [where f = prod_list], rule map_cong [OF refl]) (simp add: sh)
    have q: "map (\<lambda>r. data kr ! ravel (shape kr) [b, ravel es idx, r]) [0..<R]
             = map (\<lambda>r. prod_list (map (\<lambda>m. data (us ! m) ! ravel [B, es ! m, R] [b, idx ! m, r])
                                       [0..<length us])) [0..<R]"
    proof (rule map_cong [OF refl])
      fix r assume "r \<in> set [0..<R]"
      then have "r < R" by simp
      from khatri_rao_entry [OF assms(1) sh len kr b v this]
      show "data kr ! ravel (shape kr) [b, ravel es idx, r]
            = prod_list (map (\<lambda>m. data (us ! m) ! ravel [B, es ! m, R] [b, idx ! m, r])
                             [0..<length us])"
        by (simp only: sk)
    qed
    from cp_entry [OF assms(1) sh len c b v]
    show ?thesis by (simp only: sc p q)
  qed
  from c kr sc sk ent show ?thesis by blast
qed



text \<open>
  Claim C7. For \<open>M \<ge> 1\<close> factor matrices of shapes \<open>(B, e\<^sub>m, R)\<close>, \<^verbatim>\<open>cp\<close> returns a tensor
  of shape \<open>(B, e\<^sub>0, \<dots>, e\<^sub>M\<^sub>-\<^sub>1)\<close> and \<^verbatim>\<open>khatri_rao\<close> one of shape \<open>(B, e\<^sub>0 \<dots> e\<^sub>M\<^sub>-\<^sub>1, R)\<close>;
  the element of \<^verbatim>\<open>cp\<close> at \<open>(b, i\<^sub>0, \<dots>, i\<^sub>M\<^sub>-\<^sub>1)\<close> is the sum over the rank \<open>r\<close> of the
  products of the elements \<open>(b, i\<^sub>m, r)\<close> of the factor matrices, and it is the sum over \<open>r\<close>
  of the elements of \<^verbatim>\<open>khatri_rao\<close> at \<open>(b, k, r)\<close>, \<open>k\<close> the row-major position of
  \<open>(i\<^sub>0, \<dots>, i\<^sub>M\<^sub>-\<^sub>1)\<close>. The elements are those of a semiring, sums and products are exact.
\<close>

theorem cp_khatri_rao_consistent:
  assumes "us \<noteq> []"
    and "\<forall>u\<in>set us. length (shape u) = 3 \<and> shape u ! 0 = B \<and> shape u ! 2 = R"
  shows "\<exists>c kr. cp us = Inr c \<and> khatri_rao us = Inr kr
           \<and> shape c = B # map (\<lambda>u. shape u ! 1) us
           \<and> shape kr = [B, prod_list (map (\<lambda>u. shape u ! 1) us), R]
           \<and> (\<forall>b idx. b < B \<and> valid_index (map (\<lambda>u. shape u ! 1) us) idx \<longrightarrow>
                 data c ! ravel (shape c) (b # idx)
                   = sum_list (map (\<lambda>r. prod_list (map (\<lambda>m. data (us ! m)
                                                       ! ravel (shape (us ! m)) [b, idx ! m, r])
                                                    [0..<length us]))
                                   [0..<R])
               \<and> data c ! ravel (shape c) (b # idx)
                   = sum_list (map (\<lambda>r. data kr ! ravel (shape kr)
                                             [b, ravel (map (\<lambda>u. shape u ! 1) us) idx, r])
                                   [0..<R]))"
proof -
  let ?es = "map (\<lambda>u. shape u ! 1) us"
  have sh: "\<forall>m<length us. shape (us ! m) = [B, ?es ! m, R]"
  proof (intro allI impI)
    fix m assume m: "m < length us"
    then have "us ! m \<in> set us" by simp
    with assms(2) have l: "length (shape (us ! m)) = 3" and b: "shape (us ! m) ! 0 = B"
      and r: "shape (us ! m) ! 2 = R" by simp_all
    have "[shape (us ! m) ! 0, shape (us ! m) ! 1, shape (us ! m) ! 2] = [B, ?es ! m, R]"
      using m b r by simp
    with length_three [OF l]
    show "shape (us ! m) = [B, ?es ! m, R]" by (rule trans)
  qed
  have len: "length ?es = length us" by simp
  show ?thesis by (rule cp_khatri_rao_entries [OF assms(1) sh len])
qed

theorem cp_khatri_rao_consistent_witness:
  "cp [\<lparr>shape = [1, 2, 2], data = [1, 2, 3, 4 :: int]\<rparr>,
       \<lparr>shape = [1, 3, 2], data = [1, 10, 100, 1000, 10000, 100000]\<rparr>]
     = Inr \<lparr>shape = [1, 2, 3], data = [21, 2100, 210000, 43, 4300, 430000]\<rparr>
   \<and> khatri_rao [\<lparr>shape = [1, 2, 2], data = [1, 2, 3, 4 :: int]\<rparr>,
                 \<lparr>shape = [1, 3, 2], data = [1, 10, 100, 1000, 10000, 100000]\<rparr>]
     = Inr \<lparr>shape = [1, 6, 2],
            data = [1, 20, 100, 2000, 10000, 200000, 3, 40, 300, 4000, 30000, 400000]\<rparr>
   \<and> data \<lparr>shape = [1, 2, 3], data = [21, 2100, 210000, 43, 4300, 430000 :: int]\<rparr>
       ! ravel [1, 2, 3] [0, 1, 2]
     = sum_list (map (\<lambda>r. data \<lparr>shape = [1, 6, 2],
                                  data = [1, 20, 100, 2000, 10000, 200000, 3, 40, 300, 4000,
                                          30000, 400000 :: int]\<rparr>
                             ! ravel [1, 6, 2] [0, ravel [2, 3] [1, 2], r])
                     [0..<2])"
proof -
  let ?us = "[\<lparr>shape = [1, 2, 2], data = [1, 2, 3, 4 :: int]\<rparr>,
              \<lparr>shape = [1, 3, 2], data = [1, 10, 100, 1000, 10000, 100000]\<rparr>]"
  let ?c = "\<lparr>shape = [1, 2, 3], data = [21, 2100, 210000, 43, 4300, 430000 :: int]\<rparr>"
  let ?k = "\<lparr>shape = [1, 6, 2],
             data = [1, 20, 100, 2000, 10000, 200000, 3, 40, 300, 4000, 30000, 400000 :: int]\<rparr>"
  have hc: "cp ?us = Inr ?c" by code_simp
  have hk: "khatri_rao ?us = Inr ?k" by code_simp
  have a1: "?us \<noteq> []" by simp
  have a2: "\<forall>u\<in>set ?us. length (shape u) = 3 \<and> shape u ! 0 = 1 \<and> shape u ! 2 = 2" by simp
  from cp_khatri_rao_consistent [OF a1 a2] obtain c kr
    where c: "cp ?us = Inr c" and kr: "khatri_rao ?us = Inr kr"
      and e: "\<forall>b idx. b < 1 \<and> valid_index (map (\<lambda>u. shape u ! 1) ?us) idx \<longrightarrow>
                 data c ! ravel (shape c) (b # idx)
                   = sum_list (map (\<lambda>r. prod_list (map (\<lambda>m. data (?us ! m)
                                                       ! ravel (shape (?us ! m)) [b, idx ! m, r])
                                                    [0..<length ?us]))
                                   [0..<2])
               \<and> data c ! ravel (shape c) (b # idx)
                   = sum_list (map (\<lambda>r. data kr ! ravel (shape kr)
                                             [b, ravel (map (\<lambda>u. shape u ! 1) ?us) idx, r])
                                   [0..<2])"
    by blast
  from c hc have c': "c = ?c" by simp
  from kr hk have k': "kr = ?k" by simp
  have v: "(0::nat) < 1 \<and> valid_index (map (\<lambda>u. shape u ! 1) ?us) [1, 2]"
    by (simp add: valid_index_def)
  from e [rule_format, OF v, THEN conjunct2]
  have "data ?c ! ravel (shape ?c) [0, 1, 2]
        = sum_list (map (\<lambda>r. data ?k ! ravel (shape ?k)
                                  [0, ravel (map (\<lambda>u. shape u ! 1) ?us) [1, 2], r]) [0..<2])"
    unfolding c' k' .
  then have "data ?c ! ravel [1, 2, 3] [0, 1, 2]
        = sum_list (map (\<lambda>r. data ?k ! ravel [1, 6, 2] [0, ravel [2, 3] [1, 2], r]) [0..<2])"
    by (simp only: tensor.select_convs list.map nth_Cons_Suc nth_Cons_0 One_nat_def)
  with hc hk show ?thesis by (intro conjI)
qed

end
